theory Spec2Isabelle
  imports Complex_Main "HOL-Library.AList" "HOL-Library.Sublist"
begin


section \<open>Values, traces and the reasoning state\<close>

text \<open>
  Python values carried in action specs, observations, memory and answers are JSON-like;
  \<open>VObject\<close> is an opaque object known by its identity only (a provider handle, an LLM
  client).
  Floats are modelled as real numbers: the special IEEE values (infinities, NaN) and
  rounding are outside the model, except for the two infinities the UCB score uses, which
  get a type of their own below.
\<close>

datatype pyval =
    VNone
  | VBool bool
  | VInt int
  | VFloat real
  | VStr string
  | VList "pyval list"
  | VDict "(string \<times> pyval) list"
  | VObject nat

type_synonym ActionSpec = pyval
type_synonym Observation = pyval

text \<open>
  Exceptions are values. \<open>error\<close> stands for the exceptions that derive from Python's
  \<open>Exception\<close>, each with the text \<open>str(e)\<close> gives; \<open>OtherError\<close> carries its class name.
\<close>

datatype error =
    ActionError string
  | TypeError string
  | AttributeError string
  | KeyError string
  | IndexError string
  | OtherError string string

fun error_class :: "error \<Rightarrow> string" where
  "error_class (ActionError _) = ''ActionError''"
| "error_class (TypeError _) = ''TypeError''"
| "error_class (AttributeError _) = ''AttributeError''"
| "error_class (KeyError _) = ''KeyError''"
| "error_class (IndexError _) = ''IndexError''"
| "error_class (OtherError c _) = c"

fun error_text :: "error \<Rightarrow> string" where
  "error_text (ActionError m) = m"
| "error_text (TypeError m) = m"
| "error_text (AttributeError m) = m"
| "error_text (KeyError m) = m"
| "error_text (IndexError m) = m"
| "error_text (OtherError _ m) = m"

record TraceStep =
  action_spec :: ActionSpec
  observation :: Observation
  step_error :: "string option"
  step_score :: "real option"

record ReasoningPath =
  steps :: "TraceStep list"
  final_answer :: pyval
  terminal :: bool
  total_score :: real
  meta :: "string \<rightharpoonup> pyval"

record TableContext =
  headers :: "string list"
  rows :: "string list list"
  header_index :: "(string \<times> nat) list"

text \<open>
  The field \<open>done\<close> of the source is \<open>done_flag\<close> here (\<open>done\<close> is a keyword).
\<close>

record ReasoningContext =
  table :: TableContext
  view :: "TableContext option"
  question :: string
  memory :: "string \<rightharpoonup> pyval"
  path :: ReasoningPath
  done_flag :: bool
  answer :: pyval
  depth :: int

text \<open>
  \<open>ReasoningContext.fork\<close>, on values: every field is carried over, the path is rebuilt
  field by field. (The sharing of the objects behind the fields is the subject of the
  store model further down.)
\<close>

definition fork :: "ReasoningContext \<Rightarrow> ReasoningContext" where
  "fork s =
     \<lparr> table = table s,
       view = view s,
       question = question s,
       memory = memory s,
       path = \<lparr> steps = steps (path s),
                final_answer = final_answer (path s),
                terminal = terminal (path s),
                total_score = total_score (path s),
                meta = meta (path s) \<rparr>,
       done_flag = done_flag s,
       answer = answer s,
       depth = depth s \<rparr>"

record EvalResult =
  score :: real
  critique :: string
  extra :: "(string \<rightharpoonup> pyval) option"

record SearchHeuristics =
  max_depth :: int
  min_score_to_expand :: real

definition should_stop :: "SearchHeuristics \<Rightarrow> int \<Rightarrow> bool" where
  "should_stop h d = (d \<ge> max_depth h)"

definition should_expand :: "SearchHeuristics \<Rightarrow> real \<Rightarrow> bool" where
  "should_expand h s = (s \<ge> min_score_to_expand h)"

section \<open>The search tree\<close>

text \<open>
  A node owns its state, its children (a Python dict from proposal position to child, kept
  here as an association list in insertion order, which is the order \<open>dict.items()\<close>
  yields), its visit count and its mean value. The parent back-reference of the source is
  represented by position: a node is addressed by the list of child keys that leads to it
  from the root, and its ancestors are the nodes at the prefixes of that list. The unused
  field \<open>prior\<close> is left out.
\<close>

datatype MCTSNode =
  MCTSNode (ctx: ReasoningContext) (children: "(nat \<times> MCTSNode) list")
    (N: nat) (Q: real) (last_action_index: "nat option")

text \<open>
  The UCB score is a float that may be infinite: \<open>float("inf")\<close> for an unvisited child,
  and \<open>-float("inf")\<close> as the initial best score of the selection loop.
\<close>

datatype fscore = NegInf | Fin real | PosInf

fun gt :: "fscore \<Rightarrow> fscore \<Rightarrow> bool" where
  "gt NegInf _ = False"
| "gt (Fin _) NegInf = True"
| "gt (Fin x) (Fin y) = (x > y)"
| "gt (Fin _) PosInf = False"
| "gt PosInf PosInf = False"
| "gt PosInf _ = True"

definition ucb_score :: "nat \<Rightarrow> real \<Rightarrow> nat \<Rightarrow> real \<Rightarrow> fscore" where
  "ucb_score parent_N child_Q child_N c =
     (if child_N = 0 then PosInf
      else Fin (child_Q + c * sqrt (ln (real (max 1 parent_N)) / real child_N)))"

text \<open>
  The inner loop of \<open>_select\<close>: it runs over the children in dictionary order and keeps
  the first key whose score is strictly greater than the best so far.
\<close>

fun best_child :: "nat \<Rightarrow> real \<Rightarrow> (nat \<times> MCTSNode) list \<Rightarrow> nat option \<times> fscore
    \<Rightarrow> nat option \<times> fscore" where
  "best_child node_N c [] acc = acc"
| "best_child node_N c ((k, ch) # rest) (best_k, best_s) =
     (let s = ucb_score (node_N + 1) (Q ch) (N ch) c
      in if gt s best_s then best_child node_N c rest (Some k, s)
         else best_child node_N c rest (best_k, best_s))"

lemma size_child_less:
  "(k, ch) \<in> set al \<Longrightarrow> size ch < Suc (size_list (size_prod (\<lambda>_. 0) size) al)"
  by (induction al) auto

text \<open>
  \<open>_select\<close> returns the selected node; here also the keys followed from the root.
  \<open>node.children[best_k]\<close> raises \<open>KeyError\<close> when \<open>best_k\<close> is still \<open>None\<close>.
\<close>

function select :: "real \<Rightarrow> MCTSNode \<Rightarrow> error + (nat list \<times> MCTSNode)" where
  "select c node =
     (if children node \<noteq> [] \<and> \<not> done_flag (ctx node) then
        (case fst (best_child (N node) c (children node) (None, NegInf)) of
           None \<Rightarrow> Inl (KeyError ''None'')
         | Some k \<Rightarrow>
            (case map_of (children node) k of
               None \<Rightarrow> Inl (KeyError ''child'')
             | Some ch \<Rightarrow>
                (case select c ch of
                   Inl e \<Rightarrow> Inl e
                 | Inr (p, n) \<Rightarrow> Inr (k # p, n))))
      else Inr ([], node))"
  by pat_completeness auto
termination
proof (relation "measure (\<lambda>(c, node). size node)")
  show "wf (measure (\<lambda>(c, node). size node))" by simp
next
  fix c :: real and node k ch
  assume "children node \<noteq> [] \<and> \<not> done_flag (ctx node)"
    and "map_of (children node) k = Some ch"
  then have "(k, ch) \<in> set (children node)" by (auto dest: map_of_SomeD)
  then have "size ch < size node"
    by (cases node) (auto dest: size_child_less)
  then show "((c, ch), (c, node)) \<in> measure (\<lambda>(c, node). size node)" by simp
qed

declare select.simps [simp del]

fun first_untried :: "nat \<Rightarrow> ActionSpec list \<Rightarrow> (nat \<times> MCTSNode) list
    \<Rightarrow> (nat \<times> ActionSpec) option" where
  "first_untried i [] chs = None"
| "first_untried i (spec # rest) chs =
     (if map_of chs i = None then Some (i, spec) else first_untried (i + 1) rest chs)"

definition pick_untried_or_best :: "MCTSNode \<Rightarrow> ActionSpec list \<Rightarrow> error + (nat \<times> ActionSpec)" where
  "pick_untried_or_best node action_specs =
     (case first_untried 0 action_specs (children node) of
        Some r \<Rightarrow> Inr r
      | None \<Rightarrow> (case action_specs of [] \<Rightarrow> Inl (IndexError ''list index out of range'') | s # _ \<Rightarrow> Inr (0, s)))"

definition visit :: "real \<Rightarrow> MCTSNode \<Rightarrow> MCTSNode" where
  "visit reward cur =
     MCTSNode (ctx cur) (children cur) (N cur + 1)
       (Q cur + (reward - Q cur) / real (N cur + 1)) (last_action_index cur)"

definition set_ctx :: "ReasoningContext \<Rightarrow> MCTSNode \<Rightarrow> MCTSNode" where
  "set_ctx cx node = MCTSNode cx (children node) (N node) (Q node) (last_action_index node)"

definition set_child :: "nat \<Rightarrow> MCTSNode \<Rightarrow> MCTSNode \<Rightarrow> MCTSNode" where
  "set_child k child node =
     MCTSNode (ctx node) (AList.update k child (children node)) (N node) (Q node)
       (last_action_index node)"

fun node_at :: "nat list \<Rightarrow> MCTSNode \<Rightarrow> MCTSNode option" where
  "node_at [] node = Some node"
| "node_at (k # ks) node =
     (case map_of (children node) k of None \<Rightarrow> None | Some ch \<Rightarrow> node_at ks ch)"

fun update_at :: "nat list \<Rightarrow> (MCTSNode \<Rightarrow> MCTSNode) \<Rightarrow> MCTSNode \<Rightarrow> MCTSNode" where
  "update_at [] f node = f node"
| "update_at (k # ks) f node =
     (case map_of (children node) k of
        None \<Rightarrow> node
      | Some ch \<Rightarrow> set_child k (update_at ks f ch) node)"

text \<open>
  \<open>_backprop\<close> starts at a node and follows \<open>parent\<close> up to the root, updating each node
  on the way. With nodes addressed from the root, the same nodes are the ones at the
  prefixes of the address; each node's update reads that node only, so the order of the
  walk does not show in the result.
\<close>

fun backprop :: "nat list \<Rightarrow> real \<Rightarrow> MCTSNode \<Rightarrow> MCTSNode" where
  "backprop [] reward node = visit reward node"
| "backprop (k # ks) reward node =
     visit reward
       (case map_of (children node) k of
          None \<Rightarrow> node
        | Some ch \<Rightarrow> set_child k (backprop ks reward ch) node)"

section \<open>The runner\<close>

text \<open>
  The three collaborators are opaque objects that may keep state and answer differently
  from one call to the next. Each is called at most once per loop iteration, so a function
  of the iteration number and the state it is shown covers every such behaviour. A
  collaborator that raises returns \<open>Inl\<close>; the runner catches nothing, so the error ends
  the run. \<open>seed\<close> only seeds Python's random generator, which the runner never draws from.
\<close>

record MCTSRunner =
  planner :: "nat \<Rightarrow> ReasoningContext \<Rightarrow> error + ActionSpec list"
  executor :: "nat \<Rightarrow> ReasoningContext \<Rightarrow> ActionSpec \<Rightarrow> error + (ReasoningContext \<times> Observation)"
  evaluator :: "nat \<Rightarrow> ReasoningContext \<Rightarrow> error + EvalResult"
  heuristics :: SearchHeuristics
  exploration_c :: real
  seed :: int

text \<open>
  \<open>_maybe_collect_ctx\<close> mutates the path object of the state it is given and appends that
  object to the candidate list; the model returns the state with its updated path and the
  new list. The changes to the path are \<open>finalized_path\<close>, where
  \<open>float(p.total_score or 0.0)\<close> is written out. Merging an empty \<open>extra\<close> map
  leaves \<open>meta\<close> as it is, which is what the source's test \<open>if er.extra\<close> skips.
\<close>

definition finalized_path :: "ReasoningContext \<Rightarrow> EvalResult option \<Rightarrow> ReasoningPath" where
  "finalized_path cx er =
     (let p = path cx;
          p1 = (case er of
                  Some e \<Rightarrow>
                    p\<lparr> total_score := score e,
                       meta := (case extra e of None \<Rightarrow> meta p | Some x \<Rightarrow> meta p ++ x) \<rparr>
                | None \<Rightarrow>
                    p\<lparr> total_score := (if total_score p = 0 then 0 else total_score p) \<rparr>)
      in p1\<lparr> final_answer := answer cx \<rparr>)"

definition maybe_collect_ctx :: "ReasoningContext \<Rightarrow> ReasoningPath list \<Rightarrow> int
    \<Rightarrow> EvalResult option \<Rightarrow> ReasoningContext \<times> ReasoningPath list" where
  "maybe_collect_ctx cx candidates max_candidates er =
     (if int (length candidates) \<ge> max_candidates then (cx, candidates)
      else if done_flag cx \<or> terminal (path cx) then
        (let p = finalized_path cx er
         in (cx\<lparr> path := p \<rparr>, candidates @ [p]))
      else (cx, candidates))"

text \<open>The dead-end branch of the loop body (planner returned an empty list).\<close>

definition dead_end_ctx :: "ReasoningContext \<Rightarrow> ReasoningContext" where
  "dead_end_ctx cx =
     (let dead = fork cx;
          dead1 = dead\<lparr> done_flag := True \<rparr>;
          dead2 = dead1\<lparr> path := (path dead1)\<lparr> terminal := True \<rparr> \<rparr>
      in dead2\<lparr> path := (path dead2)\<lparr> meta := (meta (path dead2))(''dead_end'' \<mapsto> VBool True) \<rparr> \<rparr>)"

definition dead_end_step :: "MCTSRunner \<Rightarrow> int \<Rightarrow> nat \<Rightarrow> MCTSNode \<Rightarrow> nat list \<Rightarrow> MCTSNode
    \<Rightarrow> ReasoningPath list \<Rightarrow> error + (MCTSNode \<times> ReasoningPath list \<times> bool)" where
  "dead_end_step R max_candidates it tree p node candidates =
     (let dead = dead_end_ctx (ctx node)
      in case evaluator R it dead of
           Inl e \<Rightarrow> Inl e
         | Inr leaf_eval \<Rightarrow>
             (let tree1 = backprop p (score leaf_eval) tree;
                  (dead3, candidates1) =
                     maybe_collect_ctx dead candidates max_candidates (Some leaf_eval)
              in Inr (tree1, candidates1, False)))"

text \<open>
  The expansion branch: pick a position, execute on a fork, record the step, evaluate,
  prune, mark terminal, attach the child, backpropagate, collect, test the quota.
  The last component of the result tells whether the loop breaks.
\<close>

definition child_ctx_of :: "SearchHeuristics \<Rightarrow> ReasoningContext \<Rightarrow> real \<Rightarrow> ReasoningContext" where
  "child_ctx_of h child_ctx s =
     (let c1 = (if \<not> should_expand h s
                then (child_ctx\<lparr> done_flag := True \<rparr>)
                       \<lparr> path := (path child_ctx)\<lparr> meta := (meta (path child_ctx))(''pruned'' \<mapsto> VBool True) \<rparr> \<rparr>
                else child_ctx)
      in if done_flag c1
         then c1\<lparr> path := (path c1)\<lparr> terminal := True, final_answer := answer c1 \<rparr> \<rparr>
         else c1)"

definition record_step :: "ReasoningContext \<Rightarrow> ReasoningContext \<Rightarrow> ActionSpec \<Rightarrow> Observation
    \<Rightarrow> ReasoningContext" where
  "record_step parent_ctx child_ctx a_spec obs =
     (let c1 = child_ctx\<lparr> path := (path child_ctx)
                 \<lparr> steps := steps (path child_ctx) @
                    [\<lparr> action_spec = a_spec, observation = obs,
                       step_error = None, step_score = None \<rparr>] \<rparr> \<rparr>
      in c1\<lparr> depth := depth parent_ctx + 1 \<rparr>)"

definition expand_step :: "MCTSRunner \<Rightarrow> int \<Rightarrow> nat \<Rightarrow> MCTSNode \<Rightarrow> nat list \<Rightarrow> MCTSNode
    \<Rightarrow> ActionSpec list \<Rightarrow> ReasoningPath list
    \<Rightarrow> error + (MCTSNode \<times> ReasoningPath list \<times> bool)" where
  "expand_step R max_candidates it tree p node action_specs candidates =
     (case pick_untried_or_best node action_specs of
        Inl e \<Rightarrow> Inl e
      | Inr (a_idx, a_spec) \<Rightarrow>
         (case executor R it (fork (ctx node)) a_spec of
            Inl e \<Rightarrow> Inl e
          | Inr (child_ctx, obs) \<Rightarrow>
             (let c2 = record_step (ctx node) child_ctx a_spec obs
              in case evaluator R it c2 of
                   Inl e \<Rightarrow> Inl e
                 | Inr er \<Rightarrow>
                    (let c3 = child_ctx_of (heuristics R) c2 (score er);
                         child = MCTSNode c3 [] 0 0 (Some a_idx);
                         tree1 = update_at p (set_child a_idx child) tree;
                         tree2 = backprop (p @ [a_idx]) (score er) tree1;
                         (c4, candidates1) =
                            maybe_collect_ctx c3 candidates max_candidates (Some er);
                         tree3 = update_at (p @ [a_idx]) (set_ctx c4) tree2
                     in Inr (tree3, candidates1,
                             int (length candidates1) \<ge> max_candidates)))))"

definition iteration :: "MCTSRunner \<Rightarrow> int \<Rightarrow> nat \<Rightarrow> MCTSNode \<times> ReasoningPath list
    \<Rightarrow> error + (MCTSNode \<times> ReasoningPath list \<times> bool)" where
  "iteration R max_candidates it st =
     (case st of (tree, candidates) \<Rightarrow>
       (case select (exploration_c R) tree of
          Inl e \<Rightarrow> Inl e
        | Inr (p, node) \<Rightarrow>
           if done_flag (ctx node) \<or> should_stop (heuristics R) (depth (ctx node)) then
             (let (cx, candidates1) = maybe_collect_ctx (ctx node) candidates max_candidates None
              in Inr (update_at p (set_ctx cx) tree, candidates1, False))
           else
             (case planner R it (ctx node) of
                Inl e \<Rightarrow> Inl e
              | Inr action_specs \<Rightarrow>
                 if action_specs = []
                 then dead_end_step R max_candidates it tree p node candidates
                 else expand_step R max_candidates it tree p node action_specs candidates)))"

text \<open>
  The loop \<open>for _ in range(num_iters)\<close>. The state it returns also holds the number of loop
  bodies that were entered.
\<close>

fun run_loop :: "MCTSRunner \<Rightarrow> int \<Rightarrow> nat \<Rightarrow> nat \<Rightarrow> MCTSNode \<times> ReasoningPath list
    \<Rightarrow> error + (MCTSNode \<times> ReasoningPath list \<times> nat)" where
  "run_loop R max_candidates it 0 st = Inr (fst st, snd st, it)"
| "run_loop R max_candidates it (Suc n) st =
     (case iteration R max_candidates it st of
        Inl e \<Rightarrow> Inl e
      | Inr (tree, candidates, brk) \<Rightarrow>
          if brk then Inr (tree, candidates, Suc it)
          else run_loop R max_candidates (Suc it) n (tree, candidates))"

text \<open>\<open>xs[:m]\<close> for a Python integer \<open>m\<close>, negative ones counting from the end.\<close>

definition slice_to :: "int \<Rightarrow> 'a list \<Rightarrow> 'a list" where
  "slice_to m xs = (if m \<ge> 0 then take (nat m) xs else take (nat (int (length xs) + m)) xs)"

text \<open>
  \<open>candidates.sort(key=..., reverse=True)\<close> is a stable sort by descending score, which
  is the stable insertion sort on the negated key.
\<close>

definition sort_desc :: "ReasoningPath list \<Rightarrow> ReasoningPath list" where
  "sort_desc candidates = sort_key (\<lambda>p. - total_score p) candidates"

definition run_state :: "MCTSRunner \<Rightarrow> ReasoningContext \<Rightarrow> int \<Rightarrow> int
    \<Rightarrow> error + (MCTSNode \<times> ReasoningPath list \<times> nat)" where
  "run_state R root_ctx num_iters max_candidates =
     run_loop R max_candidates 0 (nat num_iters) (MCTSNode root_ctx [] 0 0 None, [])"

definition run :: "MCTSRunner \<Rightarrow> ReasoningContext \<Rightarrow> int \<Rightarrow> int \<Rightarrow> error + ReasoningPath list" where
  "run R root_ctx num_iters max_candidates =
     (case run_state R root_ctx num_iters max_candidates of
        Inl e \<Rightarrow> Inl e
      | Inr (tree, candidates, its) \<Rightarrow> Inr (slice_to max_candidates (sort_desc candidates)))"

text \<open>
  The caller, \<open>run_pipeline\<close> in \<open>main.py\<close>, from the call of the runner to its test of the
  result: an empty candidate list makes it raise \<open>RuntimeError\<close>.
\<close>

definition run_pipeline_candidates :: "MCTSRunner \<Rightarrow> ReasoningContext \<Rightarrow> int \<Rightarrow> int
    \<Rightarrow> error + ReasoningPath list" where
  "run_pipeline_candidates R root_ctx num_iters max_candidates =
     (case run R root_ctx num_iters max_candidates of
        Inl e \<Rightarrow> Inl e
      | Inr candidates \<Rightarrow>
          if candidates = []
          then Inl (OtherError ''RuntimeError'' ''No candidate reasoning paths produced by MCTS.'')
          else Inr candidates)"

text \<open>A sequence of backpropagations, each from some node of the tree with some reward.\<close>

definition backprop_all :: "(nat list \<times> real) list \<Rightarrow> MCTSNode \<Rightarrow> MCTSNode" where
  "backprop_all prs t = foldl (\<lambda>t' (p, r). backprop p r t') t prs"

section \<open>Actions, the registry and the execution collaborator\<close>

text \<open>
  An action instance is what \<open>build_action\<close> gets from a registered class: its
  \<open>validate()\<close> (raising or not) and its \<open>apply(ctx)\<close>. Python's \<open>apply\<close> works on the
  state object in place and may raise after it has already changed it, so a failing
  application yields the state as it stands when the exception leaves \<open>apply\<close>, together with
  the exception; a successful one yields the returned state and observation.
  (\<open>apply\<close> is a keyword here, hence \<open>apply_to\<close>.) A class is its constructor on the
  keyword arguments; the registry is the global \<open>ACTION_REGISTRY\<close>.
\<close>

record Action =
  validate :: "error option"
  apply_to :: "ReasoningContext \<Rightarrow> (ReasoningContext \<times> error) + (ReasoningContext \<times> pyval)"

type_synonym ActionClass = "(string \<times> pyval) list \<Rightarrow> error + Action"

type_synonym Registry = "string \<rightharpoonup> ActionClass"

fun truthy :: "pyval \<Rightarrow> bool" where
  "truthy VNone = False"
| "truthy (VBool b) = b"
| "truthy (VInt i) = (i \<noteq> 0)"
| "truthy (VFloat x) = (x \<noteq> 0)"
| "truthy (VStr s) = (s \<noteq> [])"
| "truthy (VList xs) = (xs \<noteq> [])"
| "truthy (VDict kv) = (kv \<noteq> [])"
| "truthy (VObject _) = True"

definition build_action :: "Registry \<Rightarrow> ActionSpec \<Rightarrow> error + Action" where
  "build_action registry spec =
     (case spec of
        VDict kv \<Rightarrow>
          (case map_of kv ''type'' of
             Some (VStr typ) \<Rightarrow>
               if typ = [] then Inl (ActionError ''Action spec missing string field 'type'.'')
               else
                 (case registry typ of
                    None \<Rightarrow> Inl (ActionError (''Unknown action type: '' @ typ))
                  | Some cls \<Rightarrow>
                      (case cls (AList.delete ''type'' kv) of
                         Inl (TypeError m) \<Rightarrow>
                           Inl (ActionError (''Failed to construct action '' @ typ @ '': '' @ m))
                       | Inl e \<Rightarrow> Inl e
                       | Inr act \<Rightarrow>
                           (case validate act of Some e \<Rightarrow> Inl e | None \<Rightarrow> Inr act)))
           | _ \<Rightarrow> Inl (ActionError ''Action spec missing string field 'type'.''))
      | _ \<Rightarrow> Inl (ActionError ''Action spec must be dict''))"

definition error_observation :: "real \<Rightarrow> error \<Rightarrow> Observation" where
  "error_observation penalize_on_error e =
     VDict [(''ok'', VBool False),
            (''error_type'', VStr (error_class e)),
            (''error'', VStr (error_text e)),
            (''penalty'', VFloat penalize_on_error)]"

text \<open>
  \<open>TQAExecutionAgent.execute\<close>: everything inside the \<open>try\<close> that raises ends in the
  \<open>except\<close> branch, which returns the object \<open>ctx\<close> it was called with, in the state it
  is in by then.
\<close>

definition execute :: "Registry \<Rightarrow> real \<Rightarrow> ReasoningContext \<Rightarrow> ActionSpec
    \<Rightarrow> ReasoningContext \<times> Observation" where
  "execute registry penalize_on_error cx a_spec =
     (case build_action registry a_spec of
        Inl e \<Rightarrow> (cx, error_observation penalize_on_error e)
      | Inr action \<Rightarrow>
          (case apply_to action cx of
             Inl (cx_raised, e) \<Rightarrow> (cx_raised, error_observation penalize_on_error e)
           | Inr (new_ctx, obs) \<Rightarrow> (new_ctx, if truthy obs then obs else VDict [])))"

text \<open>
  The action \<open>Finish\<close>. Its dataclass fields are \<open>approx_cost\<close>, \<open>TYPE\<close>, \<open>answer_from\<close> and
  \<open>literal\<close>, all with defaults; any other keyword makes the constructor raise
  \<open>TypeError\<close>. The keys of \<open>memory\<close> are strings, so a hashable \<open>answer_from\<close> that is not
  a string is never found there, and an unhashable one makes the membership test raise.
\<close>

definition finish_with :: "ReasoningContext \<Rightarrow> pyval \<Rightarrow> pyval
    \<Rightarrow> (ReasoningContext \<times> error) + (ReasoningContext \<times> pyval)" where
  "finish_with cx v answer_from =
     (let c1 = cx\<lparr> answer := v \<rparr>;
          c2 = c1\<lparr> done_flag := True \<rparr>;
          c3 = c2\<lparr> path := (path c2)\<lparr> terminal := True \<rparr> \<rparr>;
          c4 = c3\<lparr> path := (path c3)\<lparr> final_answer := answer c3 \<rparr> \<rparr>
      in Inr (c4, VDict [(''answer'', answer c4),
                         (''answer_from'', answer_from),
                         (''literal_used'', VBool (answer_from = VNone))]))"

definition Finish_apply :: "pyval \<Rightarrow> pyval \<Rightarrow> ReasoningContext
    \<Rightarrow> (ReasoningContext \<times> error) + (ReasoningContext \<times> pyval)" where
  "Finish_apply answer_from literal cx =
     (case answer_from of
        VNone \<Rightarrow> finish_with cx literal answer_from
      | VStr k \<Rightarrow>
          (case memory cx k of
             None \<Rightarrow> Inl (cx, ActionError (''answer_from var not found in ctx.memory: '' @ k))
           | Some v \<Rightarrow> finish_with cx v answer_from)
      | VList _ \<Rightarrow> Inl (cx, TypeError ''unhashable type: 'list' '')
      | VDict _ \<Rightarrow> Inl (cx, TypeError ''unhashable type: 'dict' '')
      | _ \<Rightarrow> Inl (cx, ActionError ''answer_from var not found in ctx.memory''))"

definition kwarg :: "(string \<times> pyval) list \<Rightarrow> string \<Rightarrow> pyval \<Rightarrow> pyval" where
  "kwarg kwargs k dflt = (case map_of kwargs k of None \<Rightarrow> dflt | Some v \<Rightarrow> v)"

definition Finish :: ActionClass where
  "Finish kwargs =
     (if \<exists>k \<in> set (map fst kwargs). k \<notin> set [''approx_cost'', ''TYPE'', ''answer_from'', ''literal'']
      then Inl (TypeError ''__init__() got an unexpected keyword argument'')
      else Inr \<lparr> validate = None,
                 apply_to = Finish_apply (kwarg kwargs ''answer_from'' VNone)
                                         (kwarg kwargs ''literal'' VNone) \<rparr>)"

section \<open>Tables and column resolution\<close>

text \<open>
  Strings are ASCII here. \<open>is_space\<close> is what \<open>str.strip()\<close> and the pattern \<open>\s\<close> take for
  whitespace in that range; \<open>_norm\<close> strips, replaces each run of whitespace by one space
  and lowercases.
\<close>

definition is_space :: "char \<Rightarrow> bool" where
  "is_space ch = ((of_char ch :: nat) \<in> set [9, 10, 11, 12, 13, 28, 29, 30, 31, 32])"

definition strip :: "string \<Rightarrow> string" where
  "strip s = rev (dropWhile is_space (rev (dropWhile is_space s)))"

function collapse :: "string \<Rightarrow> string" where
  "collapse [] = []"
| "collapse (ch # cs) =
     (if is_space ch then CHR '' '' # collapse (dropWhile is_space cs)
      else ch # collapse cs)"
  by pat_completeness auto
termination
  by (relation "measure length") (simp_all add: length_dropWhile_le less_Suc_eq_le)

definition lower_char :: "char \<Rightarrow> char" where
  "lower_char ch =
     (let n = (of_char ch :: nat) in if 65 \<le> n \<and> n \<le> 90 then char_of (n + 32) else ch)"

definition norm_str :: "string \<Rightarrow> string" where
  "norm_str s = map lower_char (collapse (strip s))"

text \<open>
  \<open>__post_init__\<close>: the dictionary comprehension stores each normalized header with its
  index, in the order of the headers; storing a key again keeps the key's place in the
  dictionary and replaces its value.
\<close>

definition build_header_index :: "string list \<Rightarrow> (string \<times> nat) list" where
  "build_header_index hs =
     foldl (\<lambda>d (i, h). AList.update (norm_str h) i d) [] (enumerate 0 hs)"

definition new_TableContext :: "string list \<Rightarrow> string list list \<Rightarrow> TableContext" where
  "new_TableContext hs rs =
     \<lparr> headers = hs, rows = rs, header_index = build_header_index hs \<rparr>"

text \<open>\<open>a in b\<close> on strings is \<open>sublist a b\<close>. The sort of the candidates is stable.\<close>

definition resolve_col :: "TableContext \<Rightarrow> string \<Rightarrow> error + nat" where
  "resolve_col t name =
     (let key = norm_str name
      in case map_of (header_index t) key of
           Some i \<Rightarrow> Inr i
         | None \<Rightarrow>
             (let cands = filter (\<lambda>(k, i). sublist key k \<or> sublist k key) (header_index t)
              in if cands = [] then Inl (KeyError (''Column not found: '' @ name))
                 else Inr (snd (hd (sort_key (\<lambda>x. length (fst x)) cands)))))"

section \<open>An action that stores before it reports: GeneralRetrieval\<close>

text \<open>
  \<open>GeneralRetrieval\<close> asks a provider object kept in \<open>memory\<close> under
  \<open>general_kb_provider\<close>, stores the provider's result in \<open>memory\<close> and then builds its
  observation from the result. The world outside the state is a parameter: what the
  objects in memory do when their \<open>search(query, topk)\<close> is called (\<open>None\<close> for an object
  without that method), and what \<open>llm_json\<close> returns at its one call in this action.
\<close>

record World =
  provider_search :: "nat \<Rightarrow> (string \<Rightarrow> int \<Rightarrow> error + pyval) option"
  llm_json :: "ReasoningContext \<Rightarrow> error + pyval"

definition py_len :: "pyval \<Rightarrow> error + nat" where
  "py_len v =
     (case v of
        VStr s \<Rightarrow> Inr (length s)
      | VList xs \<Rightarrow> Inr (length xs)
      | VDict kv \<Rightarrow> Inr (length kv)
      | _ \<Rightarrow> Inl (TypeError ''object has no len()''))"

definition stub_result :: "string \<Rightarrow> pyval" where
  "stub_result q =
     VDict [(''query'', VStr q), (''items'', VList []),
            (''note'', VStr ''No general_kb_provider configured; stub result returned.'')]"

definition retrieve :: "World \<Rightarrow> ReasoningContext \<Rightarrow> string \<Rightarrow> int \<Rightarrow> error + pyval" where
  "retrieve W cx q topk =
     (case memory cx ''general_kb_provider'' of
        None \<Rightarrow> Inr (stub_result q)
      | Some VNone \<Rightarrow> Inr (stub_result q)
      | Some (VObject ob) \<Rightarrow>
          (case provider_search W ob of
             None \<Rightarrow> Inl (ActionError ''general_kb_provider must implement search(query, topk).'')
           | Some f \<Rightarrow> f q topk)
      | Some _ \<Rightarrow> Inl (ActionError ''general_kb_provider must implement search(query, topk).''))"

definition num_items :: "pyval \<Rightarrow> error + nat" where
  "num_items result =
     (case result of
        VDict kv \<Rightarrow> py_len (case map_of kv ''items'' of None \<Rightarrow> VList [] | Some v \<Rightarrow> v)
      | _ \<Rightarrow> Inl (AttributeError ''object has no attribute 'get' ''))"

definition GeneralRetrieval_apply :: "World \<Rightarrow> string \<Rightarrow> int \<Rightarrow> bool \<Rightarrow> string \<Rightarrow> ReasoningContext
    \<Rightarrow> (ReasoningContext \<times> error) + (ReasoningContext \<times> pyval)" where
  "GeneralRetrieval_apply W query topk use_llm out_key cx =
     (let q0 = strip query;
          (q, llm_used) =
             (if q0 = [] \<and> use_llm then
                (case llm_json W cx of
                   Inr (VDict kv) \<Rightarrow>
                     (case map_of kv ''query'' of
                        Some (VStr s) \<Rightarrow> (strip s, True)
                      | _ \<Rightarrow> (q0, False))
                 | _ \<Rightarrow> (q0, False))
              else (q0, False))
      in if q = [] then Inl (cx, ActionError ''query missing (LLM unavailable/failed).'')
         else
           (case retrieve W cx q topk of
              Inl e \<Rightarrow> Inl (cx, e)
            | Inr result \<Rightarrow>
                (let cx1 = cx\<lparr> memory := (memory cx)(out_key \<mapsto> result) \<rparr>
                 in case num_items result of
                      Inl e \<Rightarrow> Inl (cx1, e)
                    | Inr n \<Rightarrow>
                        Inr (cx1, VDict [(''out_key'', VStr out_key), (''query'', VStr q),
                                         (''num_items'', VInt (int n)),
                                         (''llm_used'', VBool llm_used)]))))"

text \<open>
  The class: the dataclass fields are \<open>approx_cost\<close>, \<open>TYPE\<close>, \<open>query\<close>, \<open>topk\<close>,
  \<open>use_llm\<close> and \<open>out_key\<close>. The model covers keyword values of the fields' declared types
  (string, integer, boolean, string); Python would accept any value and fail later or not,
  which this class model does not follow: it refuses such a value at construction.
\<close>

definition as_str :: "pyval \<Rightarrow> string option" where
  "as_str v = (case v of VStr s \<Rightarrow> Some s | _ \<Rightarrow> None)"

definition as_int :: "pyval \<Rightarrow> int option" where
  "as_int v = (case v of VInt i \<Rightarrow> Some i | _ \<Rightarrow> None)"

definition as_bool :: "pyval \<Rightarrow> bool option" where
  "as_bool v = (case v of VBool b \<Rightarrow> Some b | _ \<Rightarrow> None)"

definition GeneralRetrieval :: "World \<Rightarrow> ActionClass" where
  "GeneralRetrieval W kwargs =
     (if \<exists>k \<in> set (map fst kwargs).
           k \<notin> set [''approx_cost'', ''TYPE'', ''query'', ''topk'', ''use_llm'', ''out_key'']
      then Inl (TypeError ''__init__() got an unexpected keyword argument'')
      else
        (case (as_str (kwarg kwargs ''query'' (VStr [])),
               as_int (kwarg kwargs ''topk'' (VInt 3)),
               as_bool (kwarg kwargs ''use_llm'' (VBool True)),
               as_str (kwarg kwargs ''out_key'' (VStr ''general_knowledge''))) of
           (Some query, Some topk, Some use_llm, Some out_key) \<Rightarrow>
             Inr \<lparr> validate = (if topk \<le> 0 then Some (ActionError ''topk must be positive.'')
                                else None),
                    apply_to = GeneralRetrieval_apply W query topk use_llm out_key \<rparr>
         | _ \<Rightarrow> Inl (OtherError ''Unmodelled'' ''field value outside its declared type'')))"

section \<open>States as objects: the store\<close>

text \<open>
  What \<open>fork\<close> shares and what it copies shows only where objects have identities. The
  store maps references to objects: tables, dictionaries (\<open>memory\<close>, \<open>meta\<close>), step lists,
  paths and states; the fields of a path and of a state that hold such objects hold their
  references. \<open>next_ref\<close> is the next unused reference, so an allocation never returns a
  reference that is in use.
\<close>

type_synonym ref = nat

datatype obj =
    TableObj TableContext
  | DictObj "string \<rightharpoonup> pyval"
  | ListObj "TraceStep list"
  | PathObj ref pyval bool real ref
  | CtxObj ref "ref option" string ref ref bool pyval int

record store =
  objs :: "ref \<rightharpoonup> obj"
  next_ref :: ref

definition alloc :: "store \<Rightarrow> obj \<Rightarrow> store \<times> ref" where
  "alloc h ob = (h\<lparr> objs := (objs h)(next_ref h \<mapsto> ob), next_ref := Suc (next_ref h) \<rparr>, next_ref h)"

text \<open>
  \<open>ReasoningContext(...)\<close> with its \<open>__post_init__\<close>: a missing view becomes the table.
\<close>

definition new_ReasoningContext :: "store \<Rightarrow> ref \<Rightarrow> ref option \<Rightarrow> string \<Rightarrow> ref \<Rightarrow> ref \<Rightarrow> bool
    \<Rightarrow> pyval \<Rightarrow> int \<Rightarrow> store \<times> ref" where
  "new_ReasoningContext h t v q m p d a dp =
     alloc h (CtxObj t (case v of None \<Rightarrow> Some t | Some w \<Rightarrow> Some w) q m p d a dp)"

text \<open>
  \<open>fork\<close>, in the order Python evaluates the constructor's arguments: \<open>dict(self.memory)\<close>,
  \<open>list(self.path.steps)\<close>, \<open>dict(self.path.meta)\<close>, the new path, the new state. The result
  is \<open>None\<close> when the reference is not a state whose parts are in the store.
\<close>

definition fork_obj :: "store \<Rightarrow> ref \<Rightarrow> (store \<times> ref) option" where
  "fork_obj h r =
     (case objs h r of
        Some (CtxObj t v q m p d a dp) \<Rightarrow>
          (case (objs h m, objs h p) of
             (Some (DictObj mem), Some (PathObj st fa te ts me)) \<Rightarrow>
               (case (objs h st, objs h me) of
                  (Some (ListObj sts), Some (DictObj mt)) \<Rightarrow>
                    (let (h1, m') = alloc h (DictObj mem);
                         (h2, st') = alloc h1 (ListObj sts);
                         (h3, me') = alloc h2 (DictObj mt);
                         (h4, p') = alloc h3 (PathObj st' fa te ts me')
                     in Some (new_ReasoningContext h4 t v q m' p' d a dp))
                | _ \<Rightarrow> None)
           | _ \<Rightarrow> None)
      | _ \<Rightarrow> None)"

text \<open>Reading a state's fields, and the objects behind them.\<close>

definition table_ref :: "store \<Rightarrow> ref \<Rightarrow> ref option" where
  "table_ref h r = (case objs h r of Some (CtxObj t v q m p d a dp) \<Rightarrow> Some t | _ \<Rightarrow> None)"

definition view_ref :: "store \<Rightarrow> ref \<Rightarrow> ref option" where
  "view_ref h r = (case objs h r of Some (CtxObj t v q m p d a dp) \<Rightarrow> v | _ \<Rightarrow> None)"

definition memory_ref :: "store \<Rightarrow> ref \<Rightarrow> ref option" where
  "memory_ref h r = (case objs h r of Some (CtxObj t v q m p d a dp) \<Rightarrow> Some m | _ \<Rightarrow> None)"

definition steps_ref :: "store \<Rightarrow> ref \<Rightarrow> ref option" where
  "steps_ref h r =
     (case objs h r of
        Some (CtxObj t v q m p d a dp) \<Rightarrow>
          (case objs h p of Some (PathObj st fa te ts me) \<Rightarrow> Some st | _ \<Rightarrow> None)
      | _ \<Rightarrow> None)"

definition scalars :: "store \<Rightarrow> ref \<Rightarrow> (string \<times> bool \<times> pyval \<times> int) option" where
  "scalars h r =
     (case objs h r of Some (CtxObj t v q m p d a dp) \<Rightarrow> Some (q, d, a, dp) | _ \<Rightarrow> None)"

definition memory_at :: "store \<Rightarrow> ref \<Rightarrow> (string \<rightharpoonup> pyval) option" where
  "memory_at h r =
     (case memory_ref h r of
        Some m \<Rightarrow> (case objs h m of Some (DictObj mem) \<Rightarrow> Some mem | _ \<Rightarrow> None)
      | None \<Rightarrow> None)"

definition steps_at :: "store \<Rightarrow> ref \<Rightarrow> TraceStep list option" where
  "steps_at h r =
     (case steps_ref h r of
        Some st \<Rightarrow> (case objs h st of Some (ListObj sts) \<Rightarrow> Some sts | _ \<Rightarrow> None)
      | None \<Rightarrow> None)"

text \<open>
  Mutations of a state's collections: \<open>S.memory[k] = v\<close>, \<open>del S.memory[k]\<close> and
  \<open>S.path.steps.append(s)\<close>, each changing one object of the store in place (deleting a
  key that is not there raises and changes nothing).
\<close>

definition set_memory :: "store \<Rightarrow> ref \<Rightarrow> string \<Rightarrow> pyval \<Rightarrow> store" where
  "set_memory h r k v =
     (case memory_ref h r of
        Some m \<Rightarrow>
          (case objs h m of
             Some (DictObj mem) \<Rightarrow> h\<lparr> objs := (objs h)(m \<mapsto> DictObj (mem(k \<mapsto> v))) \<rparr>
           | _ \<Rightarrow> h)
      | None \<Rightarrow> h)"

definition del_memory :: "store \<Rightarrow> ref \<Rightarrow> string \<Rightarrow> store" where
  "del_memory h r k =
     (case memory_ref h r of
        Some m \<Rightarrow>
          (case objs h m of
             Some (DictObj mem) \<Rightarrow> h\<lparr> objs := (objs h)(m \<mapsto> DictObj (mem(k := None))) \<rparr>
           | _ \<Rightarrow> h)
      | None \<Rightarrow> h)"

definition append_step :: "store \<Rightarrow> ref \<Rightarrow> TraceStep \<Rightarrow> store" where
  "append_step h r s =
     (case steps_ref h r of
        Some st \<Rightarrow>
          (case objs h st of
             Some (ListObj sts) \<Rightarrow> h\<lparr> objs := (objs h)(st \<mapsto> ListObj (sts @ [s])) \<rparr>
           | _ \<Rightarrow> h)
      | None \<Rightarrow> h)"

text \<open>A store in which every reference in use lies below \<open>next_ref\<close>.\<close>

definition wf_store :: "store \<Rightarrow> bool" where
  "wf_store h = (\<forall>x \<in> dom (objs h). x < next_ref h)"

section \<open>A concrete table and state\<close>

definition example_table :: TableContext where
  "example_table =
     \<lparr> headers = [''city'', ''population''],
       rows = [[''Oslo'', ''700''], [''Bergen'', ''290''], [''Tromso'', ''77'']],
       header_index = [(''city'', 0), (''population'', 1)] \<rparr>"

definition example_ctx :: ReasoningContext where
  "example_ctx =
     \<lparr> table = example_table,
       view = Some example_table,
       question = ''largest city?'',
       memory = Map.empty,
       path = \<lparr> steps = [], final_answer = VNone, terminal = False,
                total_score = 0, meta = Map.empty \<rparr>,
       done_flag = False,
       answer = VNone,
       depth = 0 \<rparr>"

definition example_heuristics :: SearchHeuristics where
  "example_heuristics = \<lparr> max_depth = 12, min_score_to_expand = - 1000000000 \<rparr>"

text \<open>A runner whose planner never proposes anything and whose evaluator always says 0.5.\<close>

definition dead_end_runner :: MCTSRunner where
  "dead_end_runner =
     \<lparr> planner = (\<lambda>it cx. Inr []),
       executor = (\<lambda>it cx a. Inr (cx, VDict [])),
       evaluator = (\<lambda>it cx. Inr \<lparr> score = 1 / 2, critique = [], extra = None \<rparr>),
       heuristics = example_heuristics,
       exploration_c = 7 / 5,
       seed = 7 \<rparr>"

text \<open>
  A runner with the one action \<open>Finish\<close>: the planner always proposes to finish with the
  literal answer \<open>Oslo\<close>, the executor is \<open>TQAExecutionAgent\<close> with its default penalty, the
  evaluator always says 1.
\<close>

definition finish_spec :: ActionSpec where
  "finish_spec = VDict [(''type'', VStr ''Finish''), (''literal'', VStr ''Oslo'')]"

definition finish_registry :: Registry where
  "finish_registry = [''Finish'' \<mapsto> Finish]"

definition finish_runner :: MCTSRunner where
  "finish_runner =
     \<lparr> planner = (\<lambda>it cx. Inr [finish_spec]),
       executor = (\<lambda>it cx a. Inr (execute finish_registry (- 1000000) cx a)),
       evaluator = (\<lambda>it cx. Inr \<lparr> score = 1, critique = [], extra = None \<rparr>),
       heuristics = example_heuristics,
       exploration_c = 7 / 5,
       seed = 7 \<rparr>"

text \<open>
  A runner whose planner always proposes an action type that is not registered: every
  step fails inside the executor and no state ever becomes done.
\<close>

definition unknown_spec :: ActionSpec where
  "unknown_spec = VDict [(''type'', VStr ''Teleport'')]"

definition stuck_runner :: MCTSRunner where
  "stuck_runner =
     \<lparr> planner = (\<lambda>it cx. Inr [unknown_spec]),
       executor = (\<lambda>it cx a. Inr (execute finish_registry (- 1000000) cx a)),
       evaluator = (\<lambda>it cx. Inr \<lparr> score = 1, critique = [], extra = None \<rparr>),
       heuristics = example_heuristics,
       exploration_c = 7 / 5,
       seed = 7 \<rparr>"

text \<open>
  The tree after the first iteration, and from then on: the root with one terminal child
  under key 0.
\<close>

definition finished_tree :: "ReasoningContext \<Rightarrow> ReasoningContext \<Rightarrow> real \<Rightarrow> MCTSNode" where
  "finished_tree root_ctx c4 s = MCTSNode root_ctx [(0, MCTSNode c4 [] 1 s (Some 0))] 1 s None"

text \<open>
  A store with one state (reference 5): its table (0), its memory (1), and its path (4)
  with the step list (2) and the metadata (3).
\<close>

definition example_store :: store where
  "example_store =
     \<lparr> objs = [0 \<mapsto> TableObj example_table,
               1 \<mapsto> DictObj [''x'' \<mapsto> VInt 1],
               2 \<mapsto> ListObj [],
               3 \<mapsto> DictObj Map.empty,
               4 \<mapsto> PathObj 2 VNone False 0 3,
               5 \<mapsto> CtxObj 0 (Some 0) ''largest city?'' 1 4 False VNone 0],
       next_ref = 6 \<rparr>"

text \<open>
  A world whose only provider (object 0) answers every search with a dictionary whose
  \<open>items\<close> entry is \<open>None\<close>, and a state that has this provider in its memory.
\<close>

definition none_items_world :: World where
  "none_items_world =
     \<lparr> provider_search =
         (\<lambda>ob. if ob = 0 then Some (\<lambda>q topk. Inr (VDict [(''items'', VNone)])) else None),
       llm_json = (\<lambda>cx. Inl (ActionError ''No llm_client configured in ctx.memory['llm_client'].'')) \<rparr>"

definition retrieval_registry :: Registry where
  "retrieval_registry = [''Finish'' \<mapsto> Finish, ''GeneralRetrieval'' \<mapsto> GeneralRetrieval none_items_world]"

definition retrieval_spec :: ActionSpec where
  "retrieval_spec = VDict [(''type'', VStr ''GeneralRetrieval''), (''query'', VStr ''Oslo'')]"

definition provider_ctx :: ReasoningContext where
  "provider_ctx = example_ctx\<lparr> memory := [''general_kb_provider'' \<mapsto> VObject 0] \<rparr>"

section \<open>Selection\<close>

lemma gt_trans_strict: "gt s s0 \<Longrightarrow> \<not> gt s bs \<Longrightarrow> \<not> gt s0 bs"
  by (cases s; cases s0; cases bs) auto

lemma not_gt_trans: "\<not> gt s s0 \<Longrightarrow> \<not> gt s0 bs \<Longrightarrow> \<not> gt s bs"
  by (cases s; cases s0; cases bs) auto

lemma best_child_bounds:
  "best_child n c chs (k0, s0) = (bk, bs) \<Longrightarrow>
     \<not> gt s0 bs \<and>
     (\<forall>(k, ch) \<in> set chs. \<not> gt (ucb_score (n + 1) (Q ch) (N ch) c) bs) \<and>
     ((bk = k0 \<and> bs = s0) \<or>
      (\<exists>k ch. (k, ch) \<in> set chs \<and> bk = Some k \<and> ucb_score (n + 1) (Q ch) (N ch) c = bs))"
proof (induction chs arbitrary: k0 s0)
  case Nil
  then show ?case by (cases s0) auto
next
  case (Cons a chs)
  obtain k ch where a: "a = (k, ch)" by (cases a)
  let ?s = "ucb_score (n + 1) (Q ch) (N ch) c"
  show ?case
  proof (cases "gt ?s s0")
    case True
    with Cons.prems a have "best_child n c chs (Some k, ?s) = (bk, bs)" by simp
    from Cons.IH [OF this] True a show ?thesis
      by (auto dest: gt_trans_strict)
  next
    case False
    with Cons.prems a have "best_child n c chs (k0, s0) = (bk, bs)" by simp
    from Cons.IH [OF this] False a show ?thesis
      by (auto dest: not_gt_trans)
  qed
qed

lemma ucb_score_not_NegInf: "gt (ucb_score pn q n c) NegInf"
  by (simp add: ucb_score_def)

lemma best_child_found:
  assumes "chs \<noteq> []"
  shows "\<exists>k ch. (k, ch) \<in> set chs \<and>
           fst (best_child n c chs (None, NegInf)) = Some k \<and>
           (\<forall>(k', ch') \<in> set chs.
              \<not> gt (ucb_score (n + 1) (Q ch') (N ch') c) (ucb_score (n + 1) (Q ch) (N ch) c))"
proof -
  obtain bk bs where r: "best_child n c chs (None, NegInf) = (bk, bs)"
    by (cases "best_child n c chs (None, NegInf)")
  note b = best_child_bounds [OF r]
  from assms obtain k0 ch0 where "(k0, ch0) \<in> set chs" by (cases chs) auto
  with b have "\<not> gt (ucb_score (n + 1) (Q ch0) (N ch0) c) bs" by auto
  with ucb_score_not_NegInf have "bs \<noteq> NegInf" by metis
  with b r show ?thesis by auto
qed

lemma select_stop:
  "children node = [] \<or> done_flag (ctx node) \<Longrightarrow> select c node = Inr ([], node)"
  by (subst select.simps) auto

lemma select_returns:
  "\<exists>p n. select c node = Inr (p, n) \<and> node_at p node = Some n \<and>
          (children n = [] \<or> done_flag (ctx n))"
proof (induction c node rule: select.induct)
  case (1 c node)
  show ?case
  proof (cases "children node \<noteq> [] \<and> \<not> done_flag (ctx node)")
    case False
    then have "select c node = Inr ([], node)" by (subst select.simps) auto
    with False show ?thesis by auto
  next
    case True
    then obtain k ch where kc: "(k, ch) \<in> set (children node)"
      and bk: "fst (best_child (N node) c (children node) (None, NegInf)) = Some k"
      using best_child_found [of "children node" "N node" c] by blast
    from kc obtain ch1 where m: "map_of (children node) k = Some ch1"
      by (metis weak_map_of_SomeI)
    from "1.IH" [OF True bk m] obtain p n where
      s: "select c ch1 = Inr (p, n)" "node_at p ch1 = Some n"
         "children n = [] \<or> done_flag (ctx n)" by blast
    have "select c node = Inr (k # p, n)"
      using True bk m s(1) by (subst select.simps) simp
    with m s show ?thesis by auto
  qed
qed

lemma select_step:
  assumes "children node \<noteq> []" "\<not> done_flag (ctx node)" "distinct (map fst (children node))"
  shows "\<exists>k ch. map_of (children node) k = Some ch \<and>
           select c node = (case select c ch of Inl e \<Rightarrow> Inl e | Inr (p, n) \<Rightarrow> Inr (k # p, n)) \<and>
           (\<forall>(k', ch') \<in> set (children node).
              \<not> gt (ucb_score (N node + 1) (Q ch') (N ch') c)
                    (ucb_score (N node + 1) (Q ch) (N ch) c))"
proof -
  from assms(1) obtain k ch where kc: "(k, ch) \<in> set (children node)"
    and bk: "fst (best_child (N node) c (children node) (None, NegInf)) = Some k"
    and mx: "\<forall>(k', ch') \<in> set (children node).
              \<not> gt (ucb_score (N node + 1) (Q ch') (N ch') c)
                    (ucb_score (N node + 1) (Q ch) (N ch) c)"
    using best_child_found [of "children node" "N node" c] by blast
  from kc assms(3) have m: "map_of (children node) k = Some ch" by simp
  have "select c node = (case select c ch of Inl e \<Rightarrow> Inl e | Inr (p, n) \<Rightarrow> Inr (k # p, n))"
    using assms(1,2) bk m by (subst select.simps) simp
  with m mx show ?thesis by blast
qed

lemma ucb_unvisited_first:
  assumes "N v = 5" "Q v = 0.4" "N u = 0"
  shows "fst (best_child n c [(k1, v), (k2, u)] (None, NegInf)) = Some k2"
    and "fst (best_child n c [(k2, u), (k1, v)] (None, NegInf)) = Some k2"
  using assms by (simp_all add: ucb_score_def)

section \<open>Basic facts about nodes\<close>

lemma visit_sel [simp]:
  "N (visit r n) = N n + 1"
  "Q (visit r n) = Q n + (r - Q n) / real (N n + 1)"
  "ctx (visit r n) = ctx n"
  "children (visit r n) = children n"
  "last_action_index (visit r n) = last_action_index n"
  by (simp_all add: visit_def)

lemma set_child_sel [simp]:
  "N (set_child k ch n) = N n"
  "Q (set_child k ch n) = Q n"
  "ctx (set_child k ch n) = ctx n"
  "children (set_child k ch n) = AList.update k ch (children n)"
  "last_action_index (set_child k ch n) = last_action_index n"
  by (simp_all add: set_child_def)

lemma set_ctx_sel [simp]:
  "N (set_ctx cx n) = N n"
  "Q (set_ctx cx n) = Q n"
  "ctx (set_ctx cx n) = cx"
  "children (set_ctx cx n) = children n"
  "last_action_index (set_ctx cx n) = last_action_index n"
  by (simp_all add: set_ctx_def)

lemma backprop_root [simp]:
  "N (backprop p r t) = N t + 1"
  "Q (backprop p r t) = Q t + (r - Q t) / real (N t + 1)"
  "ctx (backprop p r t) = ctx t"
  by (cases p; simp split: option.split)+

lemma fork_id [simp]: "fork s = s"
  by (simp add: fork_def)

lemma node_at_update_at:
  "node_at p t = Some n \<Longrightarrow> node_at (p @ q) (update_at p f t) = node_at q (f n)"
proof (induction p arbitrary: t)
  case Nil
  then show ?case by simp
next
  case (Cons k ks)
  then obtain ch where "map_of (children t) k = Some ch" "node_at ks ch = Some n"
    by (auto split: option.splits)
  with Cons.IH [of ch] show ?case by (simp add: update_conv')
qed

lemma select_node_at:
  "select c t = Inr (p, n) \<Longrightarrow> node_at p t = Some n \<and> (children n = [] \<or> done_flag (ctx n))"
  using select_returns [of c t] by auto

lemma backprop_same_nodes:
  "(node_at q (backprop p r t) = None) = (node_at q t = None)"
proof (induction q arbitrary: p t)
  case Nil
  then show ?case by simp
next
  case (Cons k qs)
  show ?case
  proof (cases p)
    case Nil
    then show ?thesis by simp
  next
    case (Cons j ps)
    then show ?thesis
      using Cons.IH by (auto simp: update_conv' split: option.splits)
  qed
qed

lemma backprop_target:
  "node_at p t = Some m \<Longrightarrow> node_at p (backprop p r t) = Some (visit r m)"
proof (induction p arbitrary: t)
  case Nil
  then show ?case by simp
next
  case (Cons k ks)
  then obtain ch where "map_of (children t) k = Some ch" "node_at ks ch = Some m"
    by (auto split: option.splits)
  with Cons.IH [of ch] show ?case by (simp add: update_conv')
qed

lemma node_at_append:
  "node_at (p @ q) t = (case node_at p t of None \<Rightarrow> None | Some n \<Rightarrow> node_at q n)"
  by (induction p arbitrary: t) (auto split: option.splits)

lemma maybe_collect_ctx_grows:
  "maybe_collect_ctx cx cands m er = (cx', cands') \<Longrightarrow>
     cands' = cands \<or>
     (int (length cands) < m \<and> (done_flag cx \<or> terminal (path cx)) \<and>
      cands' = cands @ [path cx'] \<and>
      steps (path cx') = steps (path cx) \<and>
      terminal (path cx') = terminal (path cx) \<and>
      final_answer (path cx') = answer cx \<and>
      dom (meta (path cx)) \<subseteq> dom (meta (path cx')) \<and>
      (\<forall>e. er = Some e \<longrightarrow> total_score (path cx') = score e))"
  by (auto simp: maybe_collect_ctx_def finalized_path_def Let_def map_add_def
      split: if_splits option.splits)

text \<open>
  Claim C1. Selection stops at a node without children or whose state is done. Otherwise
  (the keys of the children being distinct, as those of a dictionary are) it moves to a
  child of the node and goes on from there; if some child is unvisited the chosen child is
  unvisited (its score is infinite), and if all children are visited the chosen child
  maximises \<open>Q + c * sqrt (ln (max 1 (parent_N + 1)) / child_N)\<close>. Selection always returns
  a node of the tree that has no children or is done. With one visited child (N = 5,
  Q = 0.4) and one unvisited child, in either order, the unvisited one is picked for every
  exploration constant \<open>c\<close> and every parent count.
\<close>

theorem select_ucb:
  "(children node = [] \<or> done_flag (ctx node) \<longrightarrow> select c node = Inr ([], node)) \<and>
   (children node \<noteq> [] \<and> \<not> done_flag (ctx node) \<and> distinct (map fst (children node)) \<longrightarrow>
      (\<exists>k ch. map_of (children node) k = Some ch \<and>
         select c node = (case select c ch of Inl e \<Rightarrow> Inl e | Inr (p, n) \<Rightarrow> Inr (k # p, n)) \<and>
         ((\<exists>x \<in> set (children node). N (snd x) = 0) \<longrightarrow> N ch = 0) \<and>
         ((\<forall>x \<in> set (children node). N (snd x) \<noteq> 0) \<longrightarrow>
            (\<forall>x \<in> set (children node).
               Q (snd x) + c * sqrt (ln (real (max 1 (N node + 1))) / real (N (snd x)))
               \<le> Q ch + c * sqrt (ln (real (max 1 (N node + 1))) / real (N ch)))))) \<and>
   (\<exists>p n. select c node = Inr (p, n) \<and> node_at p node = Some n \<and>
           (children n = [] \<or> done_flag (ctx n))) \<and>
   (\<forall>v u k1 k2 parent_N. N v = 5 \<and> Q v = 0.4 \<and> N u = 0 \<longrightarrow>
      fst (best_child parent_N c [(k1, v), (k2, u)] (None, NegInf)) = Some k2 \<and>
      fst (best_child parent_N c [(k2, u), (k1, v)] (None, NegInf)) = Some k2)"
proof (intro conjI impI allI)
  assume "children node = [] \<or> done_flag (ctx node)"
  then show "select c node = Inr ([], node)" by (rule select_stop)
next
  assume a: "children node \<noteq> [] \<and> \<not> done_flag (ctx node) \<and> distinct (map fst (children node))"
  then obtain k ch where m: "map_of (children node) k = Some ch"
    and s: "select c node = (case select c ch of Inl e \<Rightarrow> Inl e | Inr (p, n) \<Rightarrow> Inr (k # p, n))"
    and mx: "\<forall>(k', ch') \<in> set (children node).
              \<not> gt (ucb_score (N node + 1) (Q ch') (N ch') c)
                    (ucb_score (N node + 1) (Q ch) (N ch) c)"
    using select_step [of node c] by blast
  from m have kc: "(k, ch) \<in> set (children node)" by (rule map_of_SomeD)
  have u: "(\<exists>x \<in> set (children node). N (snd x) = 0) \<longrightarrow> N ch = 0"
  proof
    assume "\<exists>x \<in> set (children node). N (snd x) = 0"
    then obtain k' ch' where x: "(k', ch') \<in> set (children node)" "N ch' = 0" by auto
    from mx x(1) have "\<not> gt (ucb_score (N node + 1) (Q ch') (N ch') c)
                    (ucb_score (N node + 1) (Q ch) (N ch) c)" by blast
    with x(2) have "\<not> gt PosInf (ucb_score (N node + 1) (Q ch) (N ch) c)"
      by (simp add: ucb_score_def)
    then show "N ch = 0" by (cases "N ch = 0") (simp_all add: ucb_score_def)
  qed
  have w: "(\<forall>x \<in> set (children node). N (snd x) \<noteq> 0) \<longrightarrow>
            (\<forall>x \<in> set (children node).
               Q (snd x) + c * sqrt (ln (real (max 1 (N node + 1))) / real (N (snd x)))
               \<le> Q ch + c * sqrt (ln (real (max 1 (N node + 1))) / real (N ch)))"
  proof (intro impI ballI)
    fix x assume all: "\<forall>x \<in> set (children node). N (snd x) \<noteq> 0" and x: "x \<in> set (children node)"
    from all kc have "N ch \<noteq> 0" by force
    moreover from all x have "N (snd x) \<noteq> 0" by blast
    moreover from mx x have "\<not> gt (ucb_score (N node + 1) (Q (snd x)) (N (snd x)) c)
                    (ucb_score (N node + 1) (Q ch) (N ch) c)" by (cases x) auto
    ultimately show "Q (snd x) + c * sqrt (ln (real (max 1 (N node + 1))) / real (N (snd x)))
               \<le> Q ch + c * sqrt (ln (real (max 1 (N node + 1))) / real (N ch))"
      by (simp add: ucb_score_def)
  qed
  from m s u w show "\<exists>k ch. map_of (children node) k = Some ch \<and>
         select c node = (case select c ch of Inl e \<Rightarrow> Inl e | Inr (p, n) \<Rightarrow> Inr (k # p, n)) \<and>
         ((\<exists>x \<in> set (children node). N (snd x) = 0) \<longrightarrow> N ch = 0) \<and>
         ((\<forall>x \<in> set (children node). N (snd x) \<noteq> 0) \<longrightarrow>
            (\<forall>x \<in> set (children node).
               Q (snd x) + c * sqrt (ln (real (max 1 (N node + 1))) / real (N (snd x)))
               \<le> Q ch + c * sqrt (ln (real (max 1 (N node + 1))) / real (N ch))))"
    by blast
next
  show "\<exists>p n. select c node = Inr (p, n) \<and> node_at p node = Some n \<and>
           (children n = [] \<or> done_flag (ctx n))" by (rule select_returns)
next
  fix v u :: MCTSNode and k1 k2 parent_N :: nat
  assume "N v = 5 \<and> Q v = 0.4 \<and> N u = 0"
  then show "fst (best_child parent_N c [(k1, v), (k2, u)] (None, NegInf)) = Some k2"
    using ucb_unvisited_first(1) [of v u] by blast
next
  fix v u :: MCTSNode and k1 k2 parent_N :: nat
  assume "N v = 5 \<and> Q v = 0.4 \<and> N u = 0"
  then show "fst (best_child parent_N c [(k2, u), (k1, v)] (None, NegInf)) = Some k2"
    using ucb_unvisited_first(2) [of v u] by blast
qed

theorem select_ucb_witness:
  "select (7 / 5)
     (MCTSNode example_ctx
        [(0, MCTSNode example_ctx [] 5 (2 / 5) (Some 0)),
         (1, MCTSNode example_ctx [] 0 0 (Some 1))] 5 (2 / 5) None)
   = Inr ([1], MCTSNode example_ctx [] 0 0 (Some 1))"
proof -
  let ?v = "MCTSNode example_ctx [] 5 (2 / 5) (Some 0)"
  let ?u = "MCTSNode example_ctx [] 0 0 (Some 1)"
  let ?node = "MCTSNode example_ctx [(0, ?v), (1, ?u)] 5 (2 / 5) None"
  have pre: "children ?node \<noteq> [] \<and> \<not> done_flag (ctx ?node) \<and>
             distinct (map fst (children ?node))"
    by (simp add: example_ctx_def)
  from select_ucb [of ?node "7 / 5"] pre obtain k ch where
    m: "map_of (children ?node) k = Some ch" and
    s: "select (7 / 5) ?node =
          (case select (7 / 5) ch of Inl e \<Rightarrow> Inl e | Inr (p, n) \<Rightarrow> Inr (k # p, n))" and
    u: "(\<exists>x \<in> set (children ?node). N (snd x) = 0) \<longrightarrow> N ch = 0"
    by blast
  from u have "N ch = 0" by simp
  with m have kc: "k = 1 \<and> ch = ?u" by (auto split: if_splits)
  have "select (7 / 5) ?u = Inr ([], ?u)" by (rule select_stop) simp
  with s kc show ?thesis by simp
qed

section \<open>Backpropagation\<close>

lemma backprop_chain:
  "node_at p t \<noteq> None \<Longrightarrow> prefix q p \<Longrightarrow> node_at q t = Some m \<Longrightarrow>
     \<exists>m'. node_at q (backprop p r t) = Some m' \<and> N m' = N m + 1 \<and>
          Q m' = Q m + (r - Q m) / real (N m + 1) \<and> ctx m' = ctx m"
proof (induction q arbitrary: p t)
  case Nil
  then show ?case by simp
next
  case (Cons k qs)
  from Cons.prems(2) obtain ps where p: "p = k # ps" and pre: "prefix qs ps"
    by (cases p) auto
  from Cons.prems(3) obtain ch where ch: "map_of (children t) k = Some ch"
    and q: "node_at qs ch = Some m" by (auto split: option.splits)
  from Cons.prems(1) p ch have "node_at ps ch \<noteq> None" by simp
  from Cons.IH [OF this pre q] obtain m' where
    "node_at qs (backprop ps r ch) = Some m'" "N m' = N m + 1"
    "Q m' = Q m + (r - Q m) / real (N m + 1)" "ctx m' = ctx m" by blast
  with p ch show ?case by (simp add: update_conv')
qed

lemma backprop_frame:
  "\<not> prefix q p \<Longrightarrow> node_at q (backprop p r t) = node_at q t"
proof (induction q arbitrary: p t)
  case Nil
  then show ?case by simp
next
  case (Cons k qs)
  show ?case
  proof (cases p)
    case Nil
    then show ?thesis by simp
  next
    case (Cons j ps)
    show ?thesis
    proof (cases "map_of (children t) j")
      case None
      with Cons show ?thesis by simp
    next
      case (Some ch)
      show ?thesis
      proof (cases "j = k")
        case True
        with Cons Cons.prems have "\<not> prefix qs ps" by simp
        from Cons.IH [OF this] True Cons Some show ?thesis by (simp add: update_conv')
      next
        case False
        with Cons Some show ?thesis by (simp add: update_conv')
      qed
    qed
  qed
qed

lemma backprop_all_mean:
  "N (backprop_all prs t) = N t + length prs \<and>
   real (N (backprop_all prs t)) * Q (backprop_all prs t)
     = real (N t) * Q t + sum_list (map snd prs)"
proof (induction prs arbitrary: t)
  case Nil
  then show ?case by (simp add: backprop_all_def)
next
  case (Cons a prs)
  obtain p r where a: "a = (p, r)" by (cases a)
  have step: "backprop_all (a # prs) t = backprop_all prs (backprop p r t)"
    by (simp add: backprop_all_def a)
  have e: "real (N (backprop p r t)) * Q (backprop p r t) = real (N t) * Q t + r"
    by (simp add: field_simps)
  from Cons.IH [of "backprop p r t"]
  have n: "N (backprop_all prs (backprop p r t)) = N (backprop p r t) + length prs"
    and q: "real (N (backprop_all prs (backprop p r t))) * Q (backprop_all prs (backprop p r t))
       = real (N (backprop p r t)) * Q (backprop p r t) + sum_list (map snd prs)"
    by blast+
  from n have "N (backprop_all (a # prs) t) = N t + length (a # prs)"
    unfolding step by simp
  moreover from q e have "real (N (backprop_all (a # prs) t)) * Q (backprop_all (a # prs) t)
     = real (N t) * Q t + sum_list (map snd (a # prs))"
    unfolding step by (simp add: a)
  ultimately show ?case by blast
qed

text \<open>
  Claim C2. Backpropagation from a node of the tree increments N by one and moves Q by
  \<open>(reward - Q) / N\<close> (with the new N) at that node and at every ancestor up to the root,
  and leaves every node off that chain as it was. Consequently a node that starts with
  N = 0 has, after any sequence of backpropagations passing through it, N equal to the
  number of rewards and Q equal to their arithmetic mean.
\<close>

theorem backprop_running_mean:
  "(node_at p t \<noteq> None \<and> prefix q p \<and> node_at q t = Some m \<longrightarrow>
      (\<exists>m'. node_at q (backprop p r t) = Some m' \<and> N m' = N m + 1 \<and>
            Q m' = Q m + (r - Q m) / real (N m + 1) \<and> ctx m' = ctx m)) \<and>
   (\<not> prefix q p \<longrightarrow> node_at q (backprop p r t) = node_at q t) \<and>
   (N t = 0 \<longrightarrow>
      N (backprop_all prs t) = length prs \<and>
      (prs \<noteq> [] \<longrightarrow>
         Q (backprop_all prs t) = sum_list (map snd prs) / real (length prs)))"
proof (intro conjI impI)
  assume "node_at p t \<noteq> None \<and> prefix q p \<and> node_at q t = Some m"
  then show "\<exists>m'. node_at q (backprop p r t) = Some m' \<and> N m' = N m + 1 \<and>
            Q m' = Q m + (r - Q m) / real (N m + 1) \<and> ctx m' = ctx m"
    using backprop_chain by blast
next
  assume "\<not> prefix q p"
  then show "node_at q (backprop p r t) = node_at q t" by (rule backprop_frame)
next
  assume "N t = 0"
  with backprop_all_mean [of prs t] show "N (backprop_all prs t) = length prs" by simp
next
  assume z: "N t = 0" and ne: "prs \<noteq> []"
  from backprop_all_mean [of prs t] z
  have n: "N (backprop_all prs t) = length prs"
    and q: "real (N (backprop_all prs t)) * Q (backprop_all prs t) = sum_list (map snd prs)"
    by auto
  from ne have "real (length prs) \<noteq> 0" by simp
  with q n show "Q (backprop_all prs t) = sum_list (map snd prs) / real (length prs)"
    by (simp add: field_simps)
qed

theorem backprop_running_mean_witness:
  "N (MCTSNode example_ctx [] 0 0 None) = 0 \<and>
   N (backprop_all [([], 1), ([], 0), ([], 1 / 2)] (MCTSNode example_ctx [] 0 0 None)) = 3 \<and>
   Q (backprop_all [([], 1), ([], 0), ([], 1 / 2)] (MCTSNode example_ctx [] 0 0 None)) = 1 / 2"
  using backprop_running_mean
    [of "[]" "MCTSNode example_ctx [] 0 0 None" "[]" "MCTSNode example_ctx [] 0 0 None" 0
        "[([], 1), ([], 0), ([], 1 / 2)]"]
  by simp

section \<open>Dead ends\<close>

lemma dead_end_ctx_fields:
  "done_flag (dead_end_ctx cx)"
  "terminal (path (dead_end_ctx cx))"
  "meta (path (dead_end_ctx cx)) = (meta (path cx))(''dead_end'' \<mapsto> VBool True)"
  "steps (path (dead_end_ctx cx)) = steps (path cx)"
  "memory (dead_end_ctx cx) = memory cx"
  "answer (dead_end_ctx cx) = answer cx"
  "depth (dead_end_ctx cx) = depth cx"
  "question (dead_end_ctx cx) = question cx"
  "table (dead_end_ctx cx) = table cx"
  "view (dead_end_ctx cx) = view cx"
  by (simp_all add: dead_end_ctx_def Let_def)

lemma dead_end_step_result:
  assumes "evaluator R it (dead_end_ctx (ctx node)) = Inr ev"
  shows "\<exists>cands'. dead_end_step R m it tree p node cands
            = Inr (backprop p (score ev) tree, cands', False) \<and>
          (cands' = cands \<or>
           (\<exists>pth. cands' = cands @ [pth] \<and> meta pth ''dead_end'' \<noteq> None \<and> terminal pth \<and>
                  steps pth = steps (path (ctx node)) \<and> total_score pth = score ev))"
proof -
  obtain cx' cands' where mc:
    "maybe_collect_ctx (dead_end_ctx (ctx node)) cands m (Some ev) = (cx', cands')"
    by (cases "maybe_collect_ctx (dead_end_ctx (ctx node)) cands m (Some ev)")
  have r: "dead_end_step R m it tree p node cands = Inr (backprop p (score ev) tree, cands', False)"
    using assms mc by (simp add: dead_end_step_def Let_def)
  from maybe_collect_ctx_grows [OF mc]
  have "cands' = cands \<or>
        (\<exists>pth. cands' = cands @ [pth] \<and> meta pth ''dead_end'' \<noteq> None \<and> terminal pth \<and>
                  steps pth = steps (path (ctx node)) \<and> total_score pth = score ev)"
  proof
    assume "cands' = cands" then show ?thesis by simp
  next
    assume a: "int (length cands) < m \<and>
      (done_flag (dead_end_ctx (ctx node)) \<or> terminal (path (dead_end_ctx (ctx node)))) \<and>
      cands' = cands @ [path cx'] \<and>
      steps (path cx') = steps (path (dead_end_ctx (ctx node))) \<and>
      terminal (path cx') = terminal (path (dead_end_ctx (ctx node))) \<and>
      final_answer (path cx') = answer (dead_end_ctx (ctx node)) \<and>
      dom (meta (path (dead_end_ctx (ctx node)))) \<subseteq> dom (meta (path cx')) \<and>
      (\<forall>e. Some ev = Some e \<longrightarrow> total_score (path cx') = score e)"
    then have "''dead_end'' \<in> dom (meta (path cx'))"
      by (auto simp: dead_end_ctx_fields)
    with a have "cands' = cands @ [path cx'] \<and> meta (path cx') ''dead_end'' \<noteq> None \<and>
        terminal (path cx') \<and> steps (path cx') = steps (path (ctx node)) \<and>
        total_score (path cx') = score ev"
      by (auto simp: dead_end_ctx_fields)
    then show ?thesis by blast
  qed
  with r show ?thesis by blast
qed

text \<open>
  Claim C9. When the planner returns an empty list for the selected node, the loop body
  evaluates the fork of that node's state marked done, terminal and \<open>dead_end\<close>, and
  backpropagates the reward from the selected node: that node's N and Q are updated, and
  the tree has the same nodes as before. The candidate list stays as it is or grows by one
  path, which is terminal, carries the key \<open>dead_end\<close> in its metadata, has the steps of the
  selected node and the evaluator's score. The loop does not break.
\<close>

theorem dead_end_iteration:
  "select (exploration_c R) tree = Inr (p, node) \<and>
   \<not> done_flag (ctx node) \<and> \<not> should_stop (heuristics R) (depth (ctx node)) \<and>
   planner R it (ctx node) = Inr [] \<and>
   evaluator R it (dead_end_ctx (ctx node)) = Inr ev \<longrightarrow>
     (\<exists>cands'. iteration R m it (tree, cands) = Inr (backprop p (score ev) tree, cands', False) \<and>
        (cands' = cands \<or>
         (\<exists>pth. cands' = cands @ [pth] \<and> meta pth ''dead_end'' \<noteq> None \<and> terminal pth \<and>
                steps pth = steps (path (ctx node)) \<and> total_score pth = score ev))) \<and>
     done_flag (dead_end_ctx (ctx node)) \<and>
     terminal (path (dead_end_ctx (ctx node))) \<and>
     meta (path (dead_end_ctx (ctx node))) ''dead_end'' = Some (VBool True) \<and>
     memory (dead_end_ctx (ctx node)) = memory (ctx node) \<and>
     (\<forall>q. (node_at q (backprop p (score ev) tree) = None) = (node_at q tree = None)) \<and>
     (\<exists>n'. node_at p (backprop p (score ev) tree) = Some n' \<and> N n' = N node + 1 \<and>
           Q n' = Q node + (score ev - Q node) / real (N node + 1) \<and> ctx n' = ctx node)"
proof
  assume a: "select (exploration_c R) tree = Inr (p, node) \<and>
   \<not> done_flag (ctx node) \<and> \<not> should_stop (heuristics R) (depth (ctx node)) \<and>
   planner R it (ctx node) = Inr [] \<and>
   evaluator R it (dead_end_ctx (ctx node)) = Inr ev"
  then have it: "iteration R m it (tree, cands) = dead_end_step R m it tree p node cands"
    by (simp add: iteration_def)
  from a have na: "node_at p tree = Some node" using select_node_at by blast
  then have ch: "\<exists>n'. node_at p (backprop p (score ev) tree) = Some n' \<and> N n' = N node + 1 \<and>
           Q n' = Q node + (score ev - Q node) / real (N node + 1) \<and> ctx n' = ctx node"
    using backprop_chain [of p tree p node "score ev"] by simp
  from a dead_end_step_result [of R it node ev m tree p cands] it
  have "\<exists>cands'. iteration R m it (tree, cands) = Inr (backprop p (score ev) tree, cands', False) \<and>
        (cands' = cands \<or>
         (\<exists>pth. cands' = cands @ [pth] \<and> meta pth ''dead_end'' \<noteq> None \<and> terminal pth \<and>
                steps pth = steps (path (ctx node)) \<and> total_score pth = score ev))"
    by simp
  with ch show "(\<exists>cands'. iteration R m it (tree, cands) = Inr (backprop p (score ev) tree, cands', False) \<and>
        (cands' = cands \<or>
         (\<exists>pth. cands' = cands @ [pth] \<and> meta pth ''dead_end'' \<noteq> None \<and> terminal pth \<and>
                steps pth = steps (path (ctx node)) \<and> total_score pth = score ev))) \<and>
     done_flag (dead_end_ctx (ctx node)) \<and>
     terminal (path (dead_end_ctx (ctx node))) \<and>
     meta (path (dead_end_ctx (ctx node))) ''dead_end'' = Some (VBool True) \<and>
     memory (dead_end_ctx (ctx node)) = memory (ctx node) \<and>
     (\<forall>q. (node_at q (backprop p (score ev) tree) = None) = (node_at q tree = None)) \<and>
     (\<exists>n'. node_at p (backprop p (score ev) tree) = Some n' \<and> N n' = N node + 1 \<and>
           Q n' = Q node + (score ev - Q node) / real (N node + 1) \<and> ctx n' = ctx node)"
    by (simp add: dead_end_ctx_fields backprop_same_nodes)
qed

theorem dead_end_iteration_witness:
  "\<exists>cands'. iteration dead_end_runner 3 0 (MCTSNode example_ctx [] 0 0 None, [])
       = Inr (MCTSNode example_ctx [] 1 (1 / 2) None, cands', False) \<and>
     (cands' = [] \<or> (\<exists>pth. cands' = [pth] \<and> meta pth ''dead_end'' \<noteq> None))"
proof -
  let ?t = "MCTSNode example_ctx [] 0 0 None"
  let ?ev = "\<lparr> score = 1 / 2, critique = [], extra = None \<rparr>"
  have pre: "select (exploration_c dead_end_runner) ?t = Inr ([], ?t) \<and>
     \<not> done_flag (ctx ?t) \<and> \<not> should_stop (heuristics dead_end_runner) (depth (ctx ?t)) \<and>
     planner dead_end_runner 0 (ctx ?t) = Inr [] \<and>
     evaluator dead_end_runner 0 (dead_end_ctx (ctx ?t)) = Inr ?ev"
    by (simp add: select_stop dead_end_runner_def example_ctx_def should_stop_def
        example_heuristics_def)
  have bp: "backprop [] (score ?ev) ?t = MCTSNode example_ctx [] 1 (1 / 2) None"
    by (simp add: visit_def)
  from dead_end_iteration [of dead_end_runner ?t "[]" ?t 0 ?ev 3 "[]"] pre bp
  show ?thesis by auto
qed

section \<open>Expansion at a position that was tried before\<close>

lemma first_untried_all_tried:
  "\<forall>j < length specs. map_of chs (i + j) \<noteq> None \<Longrightarrow> first_untried i specs chs = None"
proof (induction specs arbitrary: i)
  case Nil
  then show ?case by simp
next
  case (Cons s specs)
  from Cons.prems have h: "map_of chs i \<noteq> None" by force
  have "\<forall>j < length specs. map_of chs (Suc i + j) \<noteq> None"
  proof (intro allI impI)
    fix j assume "j < length specs"
    then have "Suc j < length (s # specs)" by simp
    with Cons.prems have "map_of chs (i + Suc j) \<noteq> None" by blast
    then show "map_of chs (Suc i + j) \<noteq> None" by simp
  qed
  from Cons.IH [OF this] h show ?case by simp
qed

lemma pick_all_tried:
  assumes "action_specs \<noteq> []"
    and "\<forall>i < length action_specs. map_of (children node) i \<noteq> None"
  shows "pick_untried_or_best node action_specs = Inr (0, hd action_specs)"
proof -
  from assms(2) have "first_untried 0 action_specs (children node) = None"
    by (intro first_untried_all_tried) simp
  with assms(1) show ?thesis
    by (cases action_specs) (simp_all add: pick_untried_or_best_def)
qed

lemma expand_step_attach:
  assumes na: "node_at p tree = Some node"
    and pk: "pick_untried_or_best node action_specs = Inr (k, a_spec)"
    and ex: "executor R it (ctx node) a_spec = Inr (cc, obs)"
    and ev: "evaluator R it (record_step (ctx node) cc a_spec obs) = Inr er"
    and c3: "c3 = child_ctx_of (heuristics R) (record_step (ctx node) cc a_spec obs) (score er)"
    and mc: "maybe_collect_ctx c3 cands m (Some er) = (c4, cands1)"
    and t1: "tree1 = update_at p (set_child k (MCTSNode c3 [] 0 0 (Some k))) tree"
    and t3: "tree3 = update_at (p @ [k]) (set_ctx c4) (backprop (p @ [k]) (score er) tree1)"
  shows "expand_step R m it tree p node action_specs cands
           = Inr (tree3, cands1, int (length cands1) \<ge> m)"
    and "node_at (p @ [k]) tree1 = Some (MCTSNode c3 [] 0 0 (Some k))"
    and "node_at (p @ [k]) tree3 = Some (MCTSNode c4 [] 1 (score er) (Some k))"
proof -
  show "expand_step R m it tree p node action_specs cands
           = Inr (tree3, cands1, int (length cands1) \<ge> m)"
    using pk ex ev c3 mc t1 t3 by (simp add: expand_step_def Let_def)
  show a: "node_at (p @ [k]) tree1 = Some (MCTSNode c3 [] 0 0 (Some k))"
    unfolding t1 using node_at_update_at [OF na, of "[k]"] by (simp add: update_conv')
  from backprop_target [OF a, of "score er"]
  have b: "node_at (p @ [k]) (backprop (p @ [k]) (score er) tree1)
             = Some (MCTSNode c3 [] 1 (score er) (Some k))"
    by (simp add: visit_def)
  from node_at_update_at [OF b, of "[]" "set_ctx c4"]
  show "node_at (p @ [k]) tree3 = Some (MCTSNode c4 [] 1 (score er) (Some k))"
    unfolding t3 by (simp add: set_ctx_def)
qed

text \<open>
  Claim C10. When every position of the proposal list is already a key of the node's
  children, \<open>_pick_untried_or_best\<close> returns position 0 with the first proposal, and the
  expansion step executes it and stores a fresh node (N = 0, Q = 0, no children) under key
  0 in place of the child that was there. After the step's backpropagation that node has
  N = 1 and Q = the new reward, and nothing lies below it: the former child, its subtree and
  its statistics are no longer in the tree.
\<close>

theorem retried_position_replaces_child:
  "node_at p tree = Some node \<and> action_specs \<noteq> [] \<and>
   (\<forall>i < length action_specs. map_of (children node) i \<noteq> None) \<and>
   executor R it (fork (ctx node)) (hd action_specs) = Inr (cc, obs) \<and>
   evaluator R it (record_step (ctx node) cc (hd action_specs) obs) = Inr er \<and>
   c3 = child_ctx_of (heuristics R) (record_step (ctx node) cc (hd action_specs) obs) (score er) \<and>
   tree1 = update_at p (set_child 0 (MCTSNode c3 [] 0 0 (Some 0))) tree \<longrightarrow>
     pick_untried_or_best node action_specs = Inr (0, hd action_specs) \<and>
     (\<exists>old. map_of (children node) 0 = Some old) \<and>
     node_at (p @ [0]) tree1 = Some (MCTSNode c3 [] 0 0 (Some 0)) \<and>
     (\<exists>c4 cands1 tree3.
        maybe_collect_ctx c3 cands m (Some er) = (c4, cands1) \<and>
        tree3 = update_at (p @ [0]) (set_ctx c4) (backprop (p @ [0]) (score er) tree1) \<and>
        expand_step R m it tree p node action_specs cands
          = Inr (tree3, cands1, int (length cands1) \<ge> m) \<and>
        node_at (p @ [0]) tree3 = Some (MCTSNode c4 [] 1 (score er) (Some 0)) \<and>
        (\<forall>q. q \<noteq> [] \<longrightarrow> node_at (p @ [0] @ q) tree3 = None))"
proof
  assume a: "node_at p tree = Some node \<and> action_specs \<noteq> [] \<and>
   (\<forall>i < length action_specs. map_of (children node) i \<noteq> None) \<and>
   executor R it (fork (ctx node)) (hd action_specs) = Inr (cc, obs) \<and>
   evaluator R it (record_step (ctx node) cc (hd action_specs) obs) = Inr er \<and>
   c3 = child_ctx_of (heuristics R) (record_step (ctx node) cc (hd action_specs) obs) (score er) \<and>
   tree1 = update_at p (set_child 0 (MCTSNode c3 [] 0 0 (Some 0))) tree"
  then have pk: "pick_untried_or_best node action_specs = Inr (0, hd action_specs)"
    using pick_all_tried by blast
  from a have "0 < length action_specs" by simp
  with a have old: "\<exists>old. map_of (children node) 0 = Some old" by blast
  obtain c4 cands1 where mc: "maybe_collect_ctx c3 cands m (Some er) = (c4, cands1)"
    by (cases "maybe_collect_ctx c3 cands m (Some er)")
  define tree3 where
    "tree3 = update_at (p @ [0]) (set_ctx c4) (backprop (p @ [0]) (score er) tree1)"
  from a have na: "node_at p tree = Some node"
    and ex: "executor R it (ctx node) (hd action_specs) = Inr (cc, obs)"
    and ev: "evaluator R it (record_step (ctx node) cc (hd action_specs) obs) = Inr er"
    and c3: "c3 = child_ctx_of (heuristics R)
                    (record_step (ctx node) cc (hd action_specs) obs) (score er)"
    and t1: "tree1 = update_at p (set_child 0 (MCTSNode c3 [] 0 0 (Some 0))) tree"
    by simp_all
  note r = expand_step_attach [OF na pk ex ev c3 mc t1 tree3_def]
  from r(3) have gone: "\<forall>q. q \<noteq> [] \<longrightarrow> node_at (p @ [0] @ q) tree3 = None"
  proof (intro allI impI)
    fix q :: "nat list" assume "q \<noteq> []"
    then obtain k ks where "q = k # ks" by (cases q) auto
    with r(3) show "node_at (p @ [0] @ q) tree3 = None"
      using node_at_append [of "p @ [0]" q tree3] by simp
  qed
  from pk old r mc tree3_def gone
  show "pick_untried_or_best node action_specs = Inr (0, hd action_specs) \<and>
     (\<exists>old. map_of (children node) 0 = Some old) \<and>
     node_at (p @ [0]) tree1 = Some (MCTSNode c3 [] 0 0 (Some 0)) \<and>
     (\<exists>c4 cands1 tree3.
        maybe_collect_ctx c3 cands m (Some er) = (c4, cands1) \<and>
        tree3 = update_at (p @ [0]) (set_ctx c4) (backprop (p @ [0]) (score er) tree1) \<and>
        expand_step R m it tree p node action_specs cands
          = Inr (tree3, cands1, int (length cands1) \<ge> m) \<and>
        node_at (p @ [0]) tree3 = Some (MCTSNode c4 [] 1 (score er) (Some 0)) \<and>
        (\<forall>q. q \<noteq> [] \<longrightarrow> node_at (p @ [0] @ q) tree3 = None))"
    by blast
qed

theorem retried_position_replaces_child_witness:
  "\<exists>c4 cands1 tree3.
     expand_step finish_runner 3 0
        (MCTSNode example_ctx
           [(0, MCTSNode example_ctx [(0, MCTSNode example_ctx [] 1 (1 / 5) (Some 0))]
                  2 (3 / 10) (Some 0))] 2 (3 / 10) None)
        []
        (MCTSNode example_ctx
           [(0, MCTSNode example_ctx [(0, MCTSNode example_ctx [] 1 (1 / 5) (Some 0))]
                  2 (3 / 10) (Some 0))] 2 (3 / 10) None)
        [finish_spec] []
       = Inr (tree3, cands1, int (length cands1) \<ge> 3) \<and>
     node_at [0] tree3 = Some (MCTSNode c4 [] 1 1 (Some 0)) \<and>
     node_at [0, 0] tree3 = None \<and>
     node_at [0, 0]
        (MCTSNode example_ctx
           [(0, MCTSNode example_ctx [(0, MCTSNode example_ctx [] 1 (1 / 5) (Some 0))]
                  2 (3 / 10) (Some 0))] 2 (3 / 10) None)
       = Some (MCTSNode example_ctx [] 1 (1 / 5) (Some 0))"
proof -
  let ?T = "MCTSNode example_ctx
           [(0, MCTSNode example_ctx [(0, MCTSNode example_ctx [] 1 (1 / 5) (Some 0))]
                  2 (3 / 10) (Some 0))] 2 (3 / 10) None"
  let ?er = "\<lparr> score = 1, critique = [], extra = None \<rparr>"
  obtain cc obs where ex: "execute finish_registry (- 1000000) example_ctx finish_spec = (cc, obs)"
    by (cases "execute finish_registry (- 1000000) example_ctx finish_spec")
  define c3 where
    "c3 = child_ctx_of (heuristics finish_runner)
            (record_step (ctx ?T) cc (hd [finish_spec]) obs) (score ?er)"
  define tree1 where "tree1 = update_at [] (set_child 0 (MCTSNode c3 [] 0 0 (Some 0))) ?T"
  have pre: "node_at [] ?T = Some ?T \<and> [finish_spec] \<noteq> [] \<and>
     (\<forall>i < length [finish_spec]. map_of (children ?T) i \<noteq> None) \<and>
     executor finish_runner 0 (fork (ctx ?T)) (hd [finish_spec]) = Inr (cc, obs) \<and>
     evaluator finish_runner 0 (record_step (ctx ?T) cc (hd [finish_spec]) obs) = Inr ?er \<and>
     c3 = child_ctx_of (heuristics finish_runner)
            (record_step (ctx ?T) cc (hd [finish_spec]) obs) (score ?er) \<and>
     tree1 = update_at [] (set_child 0 (MCTSNode c3 [] 0 0 (Some 0))) ?T"
    using ex c3_def tree1_def by (simp add: finish_runner_def)
  from retried_position_replaces_child
         [of "[]" ?T ?T "[finish_spec]" finish_runner 0 cc obs ?er c3 tree1 "[]" 3] pre
  obtain c4 cands1 tree3 where
    "expand_step finish_runner 3 0 ?T [] ?T [finish_spec] []
       = Inr (tree3, cands1, int (length cands1) \<ge> 3)"
    "node_at ([] @ [0]) tree3 = Some (MCTSNode c4 [] 1 (score ?er) (Some 0))"
    "\<forall>q. q \<noteq> [] \<longrightarrow> node_at ([] @ [0] @ q) tree3 = None"
    by blast
  moreover from this(3) have "node_at [0, 0] tree3 = None" by force
  ultimately show ?thesis by auto
qed

section \<open>The whole run\<close>

lemma maybe_collect_ctx_cap:
  assumes "maybe_collect_ctx cx cands m er = (cx', cands')" "int (length cands) \<le> max 0 m"
  shows "int (length cands') \<le> max 0 m"
  using maybe_collect_ctx_grows [OF assms(1)] assms(2) by auto

lemma dead_end_step_cap:
  assumes "dead_end_step R m it t p node cands = Inr (t', cands', brk)"
    "int (length cands) \<le> max 0 m"
  shows "int (length cands') \<le> max 0 m"
proof -
  from assms(1) obtain ev cx' where
    "maybe_collect_ctx (dead_end_ctx (ctx node)) cands m (Some ev) = (cx', cands')"
    by (auto simp: dead_end_step_def Let_def split: sum.splits prod.splits)
  then show ?thesis using assms(2) by (rule maybe_collect_ctx_cap)
qed

lemma expand_step_cap:
  assumes "expand_step R m it t p node specs cands = Inr (t', cands', brk)"
    "int (length cands) \<le> max 0 m"
  shows "int (length cands') \<le> max 0 m"
proof -
  from assms(1) obtain c3 er cx' where
    "maybe_collect_ctx c3 cands m (Some er) = (cx', cands')"
    by (auto simp: expand_step_def Let_def split: sum.splits prod.splits)
  then show ?thesis using assms(2) by (rule maybe_collect_ctx_cap)
qed

lemma iteration_cap:
  assumes "iteration R m it (t, cands) = Inr (t', cands', brk)"
    "int (length cands) \<le> max 0 m"
  shows "int (length cands') \<le> max 0 m"
proof -
  obtain p node where s: "select (exploration_c R) t = Inr (p, node)"
    using select_returns [of "exploration_c R" t] by blast
  show ?thesis
  proof (cases "done_flag (ctx node) \<or> should_stop (heuristics R) (depth (ctx node))")
    case True
    with assms(1) s obtain cx' where "maybe_collect_ctx (ctx node) cands m None = (cx', cands')"
      by (auto simp: iteration_def Let_def split: prod.splits)
    then show ?thesis using assms(2) by (rule maybe_collect_ctx_cap)
  next
    case False
    with assms(1) s obtain specs where pl: "planner R it (ctx node) = Inr specs"
      by (auto simp: iteration_def split: sum.splits)
    show ?thesis
    proof (cases "specs = []")
      case True
      with assms(1) s False pl have "dead_end_step R m it t p node cands = Inr (t', cands', brk)"
        by (simp add: iteration_def)
      then show ?thesis using assms(2) by (rule dead_end_step_cap)
    next
      case ne: False
      with assms(1) s False pl have "expand_step R m it t p node specs cands = Inr (t', cands', brk)"
        by (simp add: iteration_def)
      then show ?thesis using assms(2) by (rule expand_step_cap)
    qed
  qed
qed

lemma run_loop_cap:
  "run_loop R m it n (t, cands) = Inr (t', cands', its) \<Longrightarrow> int (length cands) \<le> max 0 m
     \<Longrightarrow> int (length cands') \<le> max 0 m"
proof (induction n arbitrary: it t cands)
  case 0
  then show ?case by simp
next
  case (Suc n)
  from Suc.prems(1) obtain t1 c1 brk where i: "iteration R m it (t, cands) = Inr (t1, c1, brk)"
    by (auto split: sum.splits)
  from iteration_cap [OF i Suc.prems(2)] have c: "int (length c1) \<le> max 0 m" .
  show ?case
  proof (cases brk)
    case True
    with Suc.prems(1) i c show ?thesis by simp
  next
    case False
    with Suc.prems(1) i have "run_loop R m (Suc it) n (t1, c1) = Inr (t', cands', its)" by simp
    from Suc.IH [OF this c] show ?thesis .
  qed
qed

lemma sort_desc_sorted:
  "sorted_wrt (\<lambda>a b. total_score a \<ge> total_score b) (sort_desc cands)"
proof -
  have "sorted (map (\<lambda>p. - total_score p) (sort_desc cands))"
    unfolding sort_desc_def by (rule sorted_sort_key)
  then show ?thesis by (simp add: sorted_map)
qed

lemma slice_to_sorted:
  "sorted_wrt P xs \<Longrightarrow> sorted_wrt P (slice_to m xs)"
  by (simp add: slice_to_def sorted_wrt_take)

lemma run_sorted_capped:
  assumes "run R root_ctx num_iters m = Inr ps"
  shows "sorted_wrt (\<lambda>a b. total_score a \<ge> total_score b) ps \<and> length ps \<le> nat m"
proof -
  from assms obtain t cands its where
    rs: "run_loop R m 0 (nat num_iters) (MCTSNode root_ctx [] 0 0 None, []) = Inr (t, cands, its)"
    and ps: "ps = slice_to m (sort_desc cands)"
    by (auto simp: run_def run_state_def split: sum.splits)
  from run_loop_cap [OF rs] have cap: "int (length cands) \<le> max 0 m" by simp
  have "length (sort_desc cands) = length cands" by (simp add: sort_desc_def)
  with cap have "length ps \<le> nat m" unfolding ps by (auto simp: slice_to_def)
  with ps show ?thesis by (simp add: slice_to_sorted sort_desc_sorted)
qed

lemma pick_nonempty:
  "specs \<noteq> [] \<Longrightarrow> \<exists>r. pick_untried_or_best node specs = Inr r"
  by (cases specs) (auto simp: pick_untried_or_best_def split: option.splits)

lemma iteration_total:
  assumes pl: "\<forall>it cx. \<exists>x. planner R it cx = Inr x"
    and ex: "\<forall>it cx a. \<exists>x. executor R it cx a = Inr x"
    and ev: "\<forall>it cx. \<exists>x. evaluator R it cx = Inr x"
  shows "\<exists>r. iteration R m it (t, cands) = Inr r"
proof -
  obtain p node where s: "select (exploration_c R) t = Inr (p, node)"
    using select_returns [of "exploration_c R" t] by blast
  show ?thesis
  proof (cases "done_flag (ctx node) \<or> should_stop (heuristics R) (depth (ctx node))")
    case True
    with s show ?thesis by (auto simp: iteration_def Let_def split: prod.splits)
  next
    case False
    from pl obtain specs where p1: "planner R it (ctx node) = Inr specs" by blast
    show ?thesis
    proof (cases "specs = []")
      case True
      from ev obtain e where "evaluator R it (dead_end_ctx (ctx node)) = Inr e" by blast
      with s False p1 True show ?thesis
        by (auto simp: iteration_def dead_end_step_def Let_def split: prod.splits)
    next
      case ne: False
      from pick_nonempty [OF ne] obtain k a where pk: "pick_untried_or_best node specs = Inr (k, a)"
        by (metis surj_pair)
      from ex obtain cc obs where e1: "executor R it (ctx node) a = Inr (cc, obs)"
        by (metis surj_pair)
      from ev obtain er where e2: "evaluator R it (record_step (ctx node) cc a obs) = Inr er"
        by blast
      from s False p1 ne pk e1 e2 show ?thesis
        by (auto simp: iteration_def expand_step_def Let_def split: prod.splits)
    qed
  qed
qed

lemma run_loop_total:
  assumes pl: "\<forall>it cx. \<exists>x. planner R it cx = Inr x"
    and ex: "\<forall>it cx a. \<exists>x. executor R it cx a = Inr x"
    and ev: "\<forall>it cx. \<exists>x. evaluator R it cx = Inr x"
  shows "\<exists>r. run_loop R m it n (t, cands) = Inr r"
proof (induction n arbitrary: it t cands)
  case 0
  then show ?case by simp
next
  case (Suc n)
  from iteration_total [OF pl ex ev, of m it t cands]
  obtain t1 c1 brk where "iteration R m it (t, cands) = Inr (t1, c1, brk)"
    by (metis surj_pair)
  with Suc.IH [of "Suc it" t1 c1] show ?case by (cases brk) auto
qed

lemma run_total:
  assumes "\<forall>it cx. \<exists>x. planner R it cx = Inr x"
    and "\<forall>it cx a. \<exists>x. executor R it cx a = Inr x"
    and "\<forall>it cx. \<exists>x. evaluator R it cx = Inr x"
  shows "\<exists>ps. run R root_ctx num_iters m = Inr ps"
proof -
  from run_loop_total [OF assms, of m 0 "nat num_iters" "MCTSNode root_ctx [] 0 0 None" "[]"]
  obtain t c i where "run_state R root_ctx num_iters m = Inr (t, c, i)"
    unfolding run_state_def by (metis surj_pair)
  then show ?thesis by (simp add: run_def)
qed

lemma run_no_budget:
  "num_iters \<le> 0 \<Longrightarrow> run R root_ctx num_iters m = Inr []"
  by (simp add: run_def run_state_def sort_desc_def slice_to_def)

text \<open>
  Claim C5, as the code has it. A run ends with an error only when a collaborator raised
  one; otherwise it returns the collected candidates sorted by descending score, and that
  list may be empty: the runner raises nothing of its own. With an iteration budget of
  zero or less the result is the empty list. It is the caller, \<open>run_pipeline\<close>, that
  raises on an empty list, so what the pipeline gets is an error or a non-empty sorted
  list.
\<close>

theorem run_returns_sorted_or_collaborator_error:
  "(run R root_ctx num_iters m = Inr ps \<longrightarrow>
      sorted_wrt (\<lambda>a b. total_score a \<ge> total_score b) ps) \<and>
   ((\<forall>it cx. \<exists>x. planner R it cx = Inr x) \<and>
    (\<forall>it cx a. \<exists>x. executor R it cx a = Inr x) \<and>
    (\<forall>it cx. \<exists>x. evaluator R it cx = Inr x) \<longrightarrow>
      (\<exists>qs. run R root_ctx num_iters m = Inr qs)) \<and>
   (num_iters \<le> 0 \<longrightarrow> run R root_ctx num_iters m = Inr []) \<and>
   (run_pipeline_candidates R root_ctx num_iters m = Inr ps \<longrightarrow>
      ps \<noteq> [] \<and> sorted_wrt (\<lambda>a b. total_score a \<ge> total_score b) ps)"
proof (intro conjI impI)
  assume "run R root_ctx num_iters m = Inr ps"
  then show "sorted_wrt (\<lambda>a b. total_score a \<ge> total_score b) ps"
    using run_sorted_capped by blast
next
  assume "(\<forall>it cx. \<exists>x. planner R it cx = Inr x) \<and>
    (\<forall>it cx a. \<exists>x. executor R it cx a = Inr x) \<and>
    (\<forall>it cx. \<exists>x. evaluator R it cx = Inr x)"
  then show "\<exists>qs. run R root_ctx num_iters m = Inr qs"
    using run_total [of R root_ctx num_iters m] by blast
next
  assume "num_iters \<le> 0"
  then show "run R root_ctx num_iters m = Inr []" by (rule run_no_budget)
next
  assume a: "run_pipeline_candidates R root_ctx num_iters m = Inr ps"
  then have r: "run R root_ctx num_iters m = Inr ps" and ne: "ps \<noteq> []"
    by (auto simp: run_pipeline_candidates_def split: sum.splits if_splits)
  from ne show "ps \<noteq> []" .
  from r show "sorted_wrt (\<lambda>a b. total_score a \<ge> total_score b) ps"
    using run_sorted_capped by blast
qed

theorem run_returns_sorted_or_collaborator_error_witness:
  "run finish_runner example_ctx 0 3 = Inr [] \<and>
   (\<exists>qs. run finish_runner example_ctx 10 3 = Inr qs)"
proof -
  have "(\<forall>it cx. \<exists>x. planner finish_runner it cx = Inr x) \<and>
    (\<forall>it cx a. \<exists>x. executor finish_runner it cx a = Inr x) \<and>
    (\<forall>it cx. \<exists>x. evaluator finish_runner it cx = Inr x)"
    by (simp add: finish_runner_def)
  moreover note
    run_returns_sorted_or_collaborator_error [of finish_runner example_ctx 10 3 "[]",
      THEN conjunct2, THEN conjunct1]
    run_returns_sorted_or_collaborator_error [of finish_runner example_ctx 0 3 "[]",
      THEN conjunct2, THEN conjunct2, THEN conjunct1]
  ultimately show ?thesis by simp
qed

theorem run_returns_empty_list_counterexample:
  "run stuck_runner example_ctx 0 3 = Inr [] \<and>
   run stuck_runner example_ctx 2 3 = Inr []"
proof
  show "run stuck_runner example_ctx 0 3 = Inr []" by (simp add: run_no_budget)
  have n: "nat 2 = Suc (Suc 0)" by simp
  show "run stuck_runner example_ctx 2 3 = Inr []"
    unfolding run_def run_state_def n
    by (simp add: iteration_def expand_step_def select.simps stuck_runner_def example_ctx_def
        should_stop_def should_expand_def example_heuristics_def pick_untried_or_best_def
        execute_def build_action_def unknown_spec_def finish_registry_def record_step_def
        child_ctx_of_def maybe_collect_ctx_def error_observation_def ucb_score_def
        set_child_def set_ctx_def visit_def Let_def sort_desc_def slice_to_def)
qed

section \<open>A planner that finishes at once\<close>

lemma sort_key_replicate: "sort_key f (replicate k x) = replicate k x"
proof (induction k)
  case 0
  then show ?case by simp
next
  case (Suc k)
  then show ?case by (cases k) simp_all
qed

lemma finalized_path_again:
  assumes "p = finalized_path c3 (Some er)"
  shows "finalized_path (c3\<lparr> path := p \<rparr>) None = p"
  unfolding assms by (simp add: finalized_path_def Let_def)

lemma child_ctx_of_done: "done_flag cx \<Longrightarrow> done_flag (child_ctx_of h cx s)"
  by (simp add: child_ctx_of_def Let_def)

lemma first_iteration_finishes:
  assumes nd: "\<not> done_flag root_ctx"
    and ns: "\<not> should_stop (heuristics R) (depth root_ctx)"
    and pl: "planner R 0 root_ctx = Inr specs" "specs \<noteq> []"
    and ex: "executor R 0 root_ctx (hd specs) = Inr (cc, obs)" "done_flag cc"
    and ev: "evaluator R 0 (record_step root_ctx cc (hd specs) obs) = Inr er"
    and c3: "c3 = child_ctx_of (heuristics R) (record_step root_ctx cc (hd specs) obs) (score er)"
    and p: "p = finalized_path c3 (Some er)"
    and m: "1 \<le> m"
  shows "iteration R m 0 (MCTSNode root_ctx [] 0 0 None, [])
           = Inr (finished_tree root_ctx (c3\<lparr> path := p \<rparr>) (score er), [p], m \<le> 1)"
proof -
  let ?t = "MCTSNode root_ctx [] 0 0 None"
  have s: "select (exploration_c R) ?t = Inr ([], ?t)" by (rule select_stop) simp
  have pk: "pick_untried_or_best ?t specs = Inr (0, hd specs)"
    using pl(2) by (cases specs) (simp_all add: pick_untried_or_best_def)
  have d3: "done_flag c3" unfolding c3
    by (rule child_ctx_of_done) (simp add: record_step_def Let_def ex(2))
  have mc: "maybe_collect_ctx c3 [] m (Some er) = (c3\<lparr> path := p \<rparr>, [p])"
    using m d3 p by (simp add: maybe_collect_ctx_def Let_def)
  have "iteration R m 0 (?t, []) = expand_step R m 0 ?t [] ?t specs []"
    using s nd ns pl by (simp add: iteration_def)
  also have "\<dots> = Inr (finished_tree root_ctx (c3\<lparr> path := p \<rparr>) (score er), [p], m \<le> 1)"
    using pk ex(1) ev c3 mc
    by (simp add: expand_step_def Let_def finished_tree_def set_child_def set_ctx_def visit_def)
  finally show ?thesis .
qed

lemma later_iteration_recollects:
  assumes nd: "\<not> done_flag root_ctx"
    and d3: "done_flag c3"
    and p: "p = finalized_path c3 (Some er)"
  shows "iteration R m it (finished_tree root_ctx (c3\<lparr> path := p \<rparr>) s, replicate j p)
           = Inr (finished_tree root_ctx (c3\<lparr> path := p \<rparr>) s,
                  replicate (if int j < m then Suc j else j) p, False)"
proof -
  let ?c4 = "c3\<lparr> path := p \<rparr>"
  let ?ch = "MCTSNode ?c4 [] 1 s (Some 0)"
  let ?t = "finished_tree root_ctx ?c4 s"
  have sc: "select (exploration_c R) ?ch = Inr ([], ?ch)" by (rule select_stop) simp
  have s: "select (exploration_c R) ?t = Inr ([0], ?ch)"
    using nd sc by (subst select.simps) (simp add: finished_tree_def ucb_score_def)
  have again: "finalized_path ?c4 None = p" using p by (rule finalized_path_again)
  have mc: "maybe_collect_ctx ?c4 (replicate j p) m None
              = (?c4, replicate (if int j < m then Suc j else j) p)"
    using d3 again by (simp add: maybe_collect_ctx_def Let_def replicate_append_same)
  have same: "update_at [0] (set_ctx ?c4) ?t = ?t"
    by (simp add: finished_tree_def set_child_def set_ctx_def)
  show ?thesis using s d3 mc same by (simp add: iteration_def)
qed

lemma later_loop_recollects:
  assumes nd: "\<not> done_flag root_ctx"
    and d3: "done_flag c3"
    and p: "p = finalized_path c3 (Some er)"
  shows "run_loop R (int m) it n (finished_tree root_ctx (c3\<lparr> path := p \<rparr>) s, replicate j p)
           = Inr (finished_tree root_ctx (c3\<lparr> path := p \<rparr>) s,
                  replicate (if j < m then min (j + n) m else j) p, it + n)"
proof (induction n arbitrary: it j)
  case 0
  then show ?case by simp
next
  case (Suc n)
  show ?case
    using later_iteration_recollects [OF nd d3 p, of R "int m" it s j]
      Suc.IH [of "Suc it" "if j < m then Suc j else j"]
    by (auto simp: min_def)
qed

lemma run_finishing_planner:
  assumes nd: "\<not> done_flag root_ctx"
    and ns: "\<not> should_stop (heuristics R) (depth root_ctx)"
    and pl: "planner R 0 root_ctx = Inr specs" "specs \<noteq> []"
    and ex: "executor R 0 root_ctx (hd specs) = Inr (cc, obs)" "done_flag cc"
    and ev: "evaluator R 0 (record_step root_ctx cc (hd specs) obs) = Inr er"
    and c3: "c3 = child_ctx_of (heuristics R) (record_step root_ctx cc (hd specs) obs) (score er)"
    and p: "p = finalized_path c3 (Some er)"
    and n: "1 \<le> n" and m: "1 \<le> m"
  shows "run_state R root_ctx (int n) (int m)
           = Inr (finished_tree root_ctx (c3\<lparr> path := p \<rparr>) (score er),
                  replicate (min n m) p, if m = 1 then 1 else n)"
    and "run R root_ctx (int n) (int m) = Inr (replicate (min n m) p)"
proof -
  from n obtain n' where n': "n = Suc n'" by (cases n) auto
  then have nn: "nat (int n) = Suc n'" by simp
  have mn: "min n (Suc 0) = Suc 0" using n by simp
  have d3: "done_flag c3" unfolding c3
    by (rule child_ctx_of_done) (simp add: record_step_def Let_def ex(2))
  have i0: "iteration R (int m) 0 (MCTSNode root_ctx [] 0 0 None, [])
           = Inr (finished_tree root_ctx (c3\<lparr> path := p \<rparr>) (score er), [p], int m \<le> 1)"
    using first_iteration_finishes [OF nd ns pl ex ev c3 p, of "int m"] m by simp
  show rs: "run_state R root_ctx (int n) (int m)
           = Inr (finished_tree root_ctx (c3\<lparr> path := p \<rparr>) (score er),
                  replicate (min n m) p, if m = 1 then 1 else n)"
  proof (cases "m = 1")
    case True
    with i0 mn show ?thesis unfolding run_state_def nn by simp
  next
    case False
    with m have m2: "1 < m" by simp
    from later_loop_recollects [OF nd d3 p, of R m 1 n' "score er" 1] m2
    have "run_loop R (int m) 1 n' (finished_tree root_ctx (c3\<lparr> path := p \<rparr>) (score er), [p])
           = Inr (finished_tree root_ctx (c3\<lparr> path := p \<rparr>) (score er),
                  replicate (min (1 + n') m) p, 1 + n')"
      by simp
    with i0 m2 n' show ?thesis unfolding run_state_def nn by simp
  qed
  have "slice_to (int m) (replicate (min n m) p) = replicate (min n m) p"
    by (simp add: slice_to_def)
  with rs show "run R root_ctx (int n) (int m) = Inr (replicate (min n m) p)"
    by (simp add: run_def sort_desc_def sort_key_replicate)
qed

text \<open>
  Claim C4, as the code has it. On any table, with a planner whose first proposal makes the
  executor return a done state, iteration budget 10 and candidate cap 3, the runner returns
  three candidates, all of them the one terminal path: the root expands once to a terminal
  child, and each later iteration re-selects that leaf and appends its path again until the
  cap is reached. The path is terminal, carries the state's answer and the evaluator's
  score. (With budget \<open>n\<close> and cap \<open>m\<close>, both at least 1, there are \<open>min n m\<close> copies.)
\<close>

theorem finishing_planner_fills_the_cap:
  "\<not> done_flag root_ctx \<and> \<not> should_stop (heuristics R) (depth root_ctx) \<and>
   planner R 0 root_ctx = Inr specs \<and> specs \<noteq> [] \<and>
   executor R 0 (fork root_ctx) (hd specs) = Inr (cc, obs) \<and> done_flag cc \<and>
   evaluator R 0 (record_step root_ctx cc (hd specs) obs) = Inr er \<and>
   p = finalized_path
         (child_ctx_of (heuristics R) (record_step root_ctx cc (hd specs) obs) (score er))
         (Some er) \<longrightarrow>
     run R root_ctx 10 3 = Inr [p, p, p] \<and>
     terminal p \<and> final_answer p = answer cc \<and> total_score p = score er \<and>
     (\<forall>n m. 1 \<le> n \<and> 1 \<le> m \<longrightarrow> run R root_ctx (int n) (int m) = Inr (replicate (min n m) p))"
proof
  assume a: "\<not> done_flag root_ctx \<and> \<not> should_stop (heuristics R) (depth root_ctx) \<and>
   planner R 0 root_ctx = Inr specs \<and> specs \<noteq> [] \<and>
   executor R 0 (fork root_ctx) (hd specs) = Inr (cc, obs) \<and> done_flag cc \<and>
   evaluator R 0 (record_step root_ctx cc (hd specs) obs) = Inr er \<and>
   p = finalized_path
         (child_ctx_of (heuristics R) (record_step root_ctx cc (hd specs) obs) (score er))
         (Some er)"
  define c3 where
    "c3 = child_ctx_of (heuristics R) (record_step root_ctx cc (hd specs) obs) (score er)"
  from a have nd: "\<not> done_flag root_ctx"
    and ns: "\<not> should_stop (heuristics R) (depth root_ctx)"
    and pl: "planner R 0 root_ctx = Inr specs" "specs \<noteq> []"
    and ex: "executor R 0 root_ctx (hd specs) = Inr (cc, obs)" "done_flag cc"
    and ev: "evaluator R 0 (record_step root_ctx cc (hd specs) obs) = Inr er"
    and p: "p = finalized_path c3 (Some er)"
    by (simp_all add: c3_def)
  have gen: "run R root_ctx (int n) (int m) = Inr (replicate (min n m) p)"
    if "1 \<le> n" "1 \<le> m" for n m
    using run_finishing_planner(2) [OF nd ns pl ex ev c3_def p that] .
  from gen [of 10 3] have r: "run R root_ctx 10 3 = Inr [p, p, p]"
    by (simp add: numeral_3_eq_3)
  have t: "terminal p \<and> final_answer p = answer cc \<and> total_score p = score er"
    using ex(2) unfolding p c3_def
    by (simp add: finalized_path_def child_ctx_of_def record_step_def Let_def)
  from r t gen show "run R root_ctx 10 3 = Inr [p, p, p] \<and>
     terminal p \<and> final_answer p = answer cc \<and> total_score p = score er \<and>
     (\<forall>n m. 1 \<le> n \<and> 1 \<le> m \<longrightarrow> run R root_ctx (int n) (int m) = Inr (replicate (min n m) p))"
    by blast
qed

lemma finish_runner_first_step:
  "\<exists>cc obs. executor finish_runner 0 example_ctx (hd [finish_spec]) = Inr (cc, obs) \<and>
      done_flag cc \<and> answer cc = VStr ''Oslo''"
  by (simp add: finish_runner_def execute_def build_action_def finish_spec_def
      finish_registry_def Finish_def Finish_apply_def finish_with_def kwarg_def Let_def)

theorem finishing_planner_fills_the_cap_witness:
  "\<exists>p. run finish_runner example_ctx 10 3 = Inr [p, p, p] \<and>
        terminal p \<and> final_answer p = VStr ''Oslo'' \<and> total_score p = 1"
proof -
  from finish_runner_first_step obtain cc obs where
    ex: "executor finish_runner 0 example_ctx (hd [finish_spec]) = Inr (cc, obs)"
    and d: "done_flag cc" and an: "answer cc = VStr ''Oslo''" by blast
  let ?er = "\<lparr> score = 1, critique = [], extra = None \<rparr>"
  define p where "p = finalized_path
         (child_ctx_of (heuristics finish_runner)
            (record_step example_ctx cc (hd [finish_spec]) obs) (score ?er)) (Some ?er)"
  have pre: "\<not> done_flag example_ctx \<and>
     \<not> should_stop (heuristics finish_runner) (depth example_ctx) \<and>
     planner finish_runner 0 example_ctx = Inr [finish_spec] \<and> [finish_spec] \<noteq> [] \<and>
     executor finish_runner 0 (fork example_ctx) (hd [finish_spec]) = Inr (cc, obs) \<and>
     done_flag cc \<and>
     evaluator finish_runner 0 (record_step example_ctx cc (hd [finish_spec]) obs) = Inr ?er \<and>
     p = finalized_path
         (child_ctx_of (heuristics finish_runner)
            (record_step example_ctx cc (hd [finish_spec]) obs) (score ?er)) (Some ?er)"
    using ex d p_def
    by (simp add: finish_runner_def example_ctx_def should_stop_def example_heuristics_def)
  from finishing_planner_fills_the_cap
         [of example_ctx finish_runner "[finish_spec]" cc obs ?er p] pre an
  have "run finish_runner example_ctx 10 3 = Inr [p, p, p] \<and>
        terminal p \<and> final_answer p = VStr ''Oslo'' \<and> total_score p = 1"
    by simp
  then show ?thesis by blast
qed

theorem exactly_one_candidate_counterexample:
  "\<exists>ps. run finish_runner example_ctx 10 3 = Inr ps \<and> length ps = 3"
proof -
  from finish_runner_first_step obtain cc obs where
    ex: "executor finish_runner 0 example_ctx (hd [finish_spec]) = Inr (cc, obs)"
    and d: "done_flag cc" by blast
  let ?er = "\<lparr> score = 1, critique = [], extra = None \<rparr>"
  have "run finish_runner example_ctx (int 10) (int 3)
          = Inr (replicate (min 10 3)
                  (finalized_path
                     (child_ctx_of (heuristics finish_runner)
                        (record_step example_ctx cc (hd [finish_spec]) obs) (score ?er))
                     (Some ?er)))"
    by (rule run_finishing_planner(2) [OF _ _ _ _ ex d _ refl refl])
       (simp_all add: finish_runner_def example_ctx_def should_stop_def example_heuristics_def)
  then show ?thesis by simp
qed

section \<open>The quota and the end of the loop\<close>

text \<open>
  Claim C3 at two inputs. With a planner that never proposes anything, budget 3 and quota
  1, the quota is reached in the first iteration (in the dead-end branch, which does not
  break), and the loop still enters all three bodies, asking the collaborators and
  backpropagating each time: the root ends with N = 3. With the finishing planner, budget
  10 and quota 3, the quota is reached in the third iteration (in the branch for an already
  terminal node) and the loop enters all ten bodies. The returned list has the quota's
  length in both runs.
\<close>

theorem loop_runs_on_after_quota:
  "iteration dead_end_runner 1 0 (MCTSNode example_ctx [] 0 0 None, [])
     = Inr (MCTSNode example_ctx [] 1 (1 / 2) None,
            [finalized_path (dead_end_ctx example_ctx)
               (Some \<lparr> score = 1 / 2, critique = [], extra = None \<rparr>)], False) \<and>
   run_state dead_end_runner example_ctx 3 1
     = Inr (MCTSNode example_ctx [] 3 (1 / 2) None,
            [finalized_path (dead_end_ctx example_ctx)
               (Some \<lparr> score = 1 / 2, critique = [], extra = None \<rparr>)], 3) \<and>
   (\<exists>t ps. run_state finish_runner example_ctx 3 3 = Inr (t, ps, 3) \<and> length ps = 3) \<and>
   (\<exists>t ps. run_state finish_runner example_ctx 10 3 = Inr (t, ps, 10) \<and> length ps = 3)"
proof (intro conjI)
  have s: "\<And>n q. select (7 / 5) (MCTSNode example_ctx [] n q None)
             = Inr ([], MCTSNode example_ctx [] n q None)"
    by (rule select_stop) simp
  have e: "\<not> done_flag example_ctx" "depth example_ctx = 0"
    by (simp_all add: example_ctx_def)
  have d: "done_flag (dead_end_ctx example_ctx)" by (simp add: dead_end_ctx_fields)
  have it0: "\<And>i n q. iteration dead_end_runner 1 i (MCTSNode example_ctx [] n q None, [])
      = Inr (MCTSNode example_ctx [] (n + 1) (q + (1 / 2 - q) / real (n + 1)) None,
             [finalized_path (dead_end_ctx example_ctx)
                (Some \<lparr> score = 1 / 2, critique = [], extra = None \<rparr>)], False)"
    by (simp add: iteration_def dead_end_step_def dead_end_runner_def s e d
        should_stop_def example_heuristics_def maybe_collect_ctx_def visit_def Let_def)
  have it1: "\<And>i n q x. iteration dead_end_runner 1 i (MCTSNode example_ctx [] n q None, [x])
      = Inr (MCTSNode example_ctx [] (n + 1) (q + (1 / 2 - q) / real (n + 1)) None, [x], False)"
    by (simp add: iteration_def dead_end_step_def dead_end_runner_def s e d
        should_stop_def example_heuristics_def maybe_collect_ctx_def visit_def Let_def)
  show "iteration dead_end_runner 1 0 (MCTSNode example_ctx [] 0 0 None, [])
     = Inr (MCTSNode example_ctx [] 1 (1 / 2) None,
            [finalized_path (dead_end_ctx example_ctx)
               (Some \<lparr> score = 1 / 2, critique = [], extra = None \<rparr>)], False)"
    using it0 [of 0 0 0] by simp
  have n3: "nat 3 = Suc (Suc (Suc 0))" by simp
  show "run_state dead_end_runner example_ctx 3 1
     = Inr (MCTSNode example_ctx [] 3 (1 / 2) None,
            [finalized_path (dead_end_ctx example_ctx)
               (Some \<lparr> score = 1 / 2, critique = [], extra = None \<rparr>)], 3)"
    unfolding run_state_def n3 using it0 [of 0 0 0] by (simp add: it1)
next
  from finish_runner_first_step obtain cc obs where
    ex: "executor finish_runner 0 example_ctx (hd [finish_spec]) = Inr (cc, obs)"
    and d: "done_flag cc" by blast
  note r = run_finishing_planner(1) [OF _ _ _ _ ex d _ refl refl]
  have "\<exists>t ps. run_state finish_runner example_ctx (int 3) (int 3) = Inr (t, ps, 3) \<and> length ps = 3"
    by (subst r)
       (simp_all add: finish_runner_def example_ctx_def should_stop_def example_heuristics_def)
  then show "\<exists>t ps. run_state finish_runner example_ctx 3 3 = Inr (t, ps, 3) \<and> length ps = 3"
    by simp
  have "\<exists>t ps. run_state finish_runner example_ctx (int 10) (int 3) = Inr (t, ps, 10) \<and> length ps = 3"
    by (subst r)
       (simp_all add: finish_runner_def example_ctx_def should_stop_def example_heuristics_def)
  then show "\<exists>t ps. run_state finish_runner example_ctx 10 3 = Inr (t, ps, 10) \<and> length ps = 3"
    by simp
qed

section \<open>Column resolution\<close>













text \<open>
  A duplicated normalized header, in a soft match: \<open>ab\<close> is met first (column 0) and
  stands for its last column (2).
\<close>

lemma resolve_col_duplicate_example:
  "resolve_col (new_TableContext [''Ab'', ''Cb'', '' AB ''] []) ''b'' = Inr 2 \<and>
   norm_str ''Ab'' = ''ab'' \<and> norm_str ''Cb'' = ''cb'' \<and> norm_str '' AB '' = ''ab'' \<and>
   norm_str ''b'' = ''b'' \<and> sublist ''b'' ''ab'' \<and> sublist ''b'' ''cb''"
  by code_simp

section \<open>Forking\<close>

lemma fork_obj_result:
  assumes "fork_obj h r = Some (h', r')"
  obtains t v q m p d a dp mem st fa te ts me sts mt where
    "objs h r = Some (CtxObj t v q m p d a dp)"
    "objs h m = Some (DictObj mem)"
    "objs h p = Some (PathObj st fa te ts me)"
    "objs h st = Some (ListObj sts)"
    "objs h me = Some (DictObj mt)"
    "r' = next_ref h + 4"
    "objs h' = (objs h)
       (next_ref h \<mapsto> DictObj mem,
        next_ref h + 1 \<mapsto> ListObj sts,
        next_ref h + 2 \<mapsto> DictObj mt,
        next_ref h + 3 \<mapsto> PathObj (next_ref h + 1) fa te ts (next_ref h + 2),
        next_ref h + 4 \<mapsto>
          CtxObj t (case v of None \<Rightarrow> Some t | Some w \<Rightarrow> Some w) q (next_ref h)
            (next_ref h + 3) d a dp)"
proof -
  from assms obtain t v q m p d a dp where r: "objs h r = Some (CtxObj t v q m p d a dp)"
    by (auto simp: fork_obj_def split: option.splits obj.splits)
  from assms r obtain mem st fa te ts me where
    m: "objs h m = Some (DictObj mem)" and p: "objs h p = Some (PathObj st fa te ts me)"
    by (auto simp: fork_obj_def split: option.splits obj.splits)
  from assms r m p obtain sts mt where
    st: "objs h st = Some (ListObj sts)" and me: "objs h me = Some (DictObj mt)"
    by (auto simp: fork_obj_def split: option.splits obj.splits)
  from assms r m p st me have
    "r' = next_ref h + 4"
    "objs h' = (objs h)
       (next_ref h \<mapsto> DictObj mem,
        next_ref h + 1 \<mapsto> ListObj sts,
        next_ref h + 2 \<mapsto> DictObj mt,
        next_ref h + 3 \<mapsto> PathObj (next_ref h + 1) fa te ts (next_ref h + 2),
        next_ref h + 4 \<mapsto>
          CtxObj t (case v of None \<Rightarrow> Some t | Some w \<Rightarrow> Some w) q (next_ref h)
            (next_ref h + 3) d a dp)"
    by (auto simp: fork_obj_def alloc_def new_ReasoningContext_def Let_def eval_nat_numeral)
  with r m p st me show ?thesis by (rule that)
qed

lemma fork_obj_facts:
  assumes wf: "wf_store h" and f: "fork_obj h r = Some (h', r')"
  shows "table_ref h' r' = table_ref h r"
    and "view_ref h r \<noteq> None \<Longrightarrow> view_ref h' r' = view_ref h r"
    and "scalars h' r' = scalars h r"
    and "memory_ref h' r' \<noteq> memory_ref h' r"
    and "steps_ref h' r' \<noteq> steps_ref h' r"
    and "memory_at h' r' = memory_at h r" and "memory_at h r \<noteq> None"
    and "steps_at h' r' = steps_at h r" and "steps_at h r \<noteq> None"
    and "memory_at h' r = memory_at h r"
    and "steps_at h' r = steps_at h r"
    and "\<forall>x \<in> dom (objs h). objs h' x = objs h x"
    and "memory_at (set_memory h' r' k val) r = memory_at h r"
    and "memory_at (set_memory h' r k val) r' = memory_at h r"
    and "memory_at (set_memory h' r' k val) r' = map_option (\<lambda>mem. mem(k \<mapsto> val)) (memory_at h r)"
    and "memory_at (del_memory h' r' k) r = memory_at h r"
    and "memory_at (del_memory h' r k) r' = memory_at h r"
    and "steps_at (append_step h' r' s) r = steps_at h r"
    and "steps_at (append_step h' r s) r' = steps_at h r"
    and "steps_at (append_step h' r' s) r' = map_option (\<lambda>sts. sts @ [s]) (steps_at h r)"
proof -
  from f obtain t v q m p d a dp mem st fa te ts me sts mt where
    o: "objs h r = Some (CtxObj t v q m p d a dp)"
       "objs h m = Some (DictObj mem)"
       "objs h p = Some (PathObj st fa te ts me)"
       "objs h st = Some (ListObj sts)"
       "objs h me = Some (DictObj mt)"
    and r': "r' = next_ref h + 4"
    and h': "objs h' = (objs h)
       (next_ref h \<mapsto> DictObj mem,
        next_ref h + 1 \<mapsto> ListObj sts,
        next_ref h + 2 \<mapsto> DictObj mt,
        next_ref h + 3 \<mapsto> PathObj (next_ref h + 1) fa te ts (next_ref h + 2),
        next_ref h + 4 \<mapsto>
          CtxObj t (case v of None \<Rightarrow> Some t | Some w \<Rightarrow> Some w) q (next_ref h)
            (next_ref h + 3) d a dp)"
    by (rule fork_obj_result)
  from wf o have lt: "r < next_ref h" "m < next_ref h" "p < next_ref h" "st < next_ref h"
    "me < next_ref h"
    by (auto simp: wf_store_def dom_def)
  show "table_ref h' r' = table_ref h r"
    using o lt by (simp add: table_ref_def h' r')
  show "view_ref h' r' = view_ref h r" if "view_ref h r \<noteq> None"
    using that o lt by (auto simp: view_ref_def h' r')
  show "scalars h' r' = scalars h r"
    using o lt by (simp add: scalars_def h' r')
  show "memory_ref h' r' \<noteq> memory_ref h' r"
    using o lt by (simp add: memory_ref_def h' r')
  show "steps_ref h' r' \<noteq> steps_ref h' r"
    using o lt by (simp add: steps_ref_def h' r')
  show "memory_at h' r' = memory_at h r"
    using o lt by (simp add: memory_at_def memory_ref_def h' r')
  show "memory_at h r \<noteq> None"
    using o by (simp add: memory_at_def memory_ref_def)
  show "steps_at h' r' = steps_at h r"
    using o lt by (simp add: steps_at_def steps_ref_def h' r')
  show "steps_at h r \<noteq> None"
    using o by (simp add: steps_at_def steps_ref_def)
  show "memory_at h' r = memory_at h r"
    using o lt by (simp add: memory_at_def memory_ref_def h' r')
  show "steps_at h' r = steps_at h r"
    using o lt by (simp add: steps_at_def steps_ref_def h' r')
  show "\<forall>x \<in> dom (objs h). objs h' x = objs h x"
  proof
    fix x assume "x \<in> dom (objs h)"
    with wf have "x < next_ref h" by (simp add: wf_store_def)
    then show "objs h' x = objs h x" by (simp add: h')
  qed
  show "memory_at (set_memory h' r' k val) r = memory_at h r"
    using o lt by (simp add: set_memory_def memory_at_def memory_ref_def h' r')
  show "memory_at (set_memory h' r k val) r' = memory_at h r"
    using o lt by (simp add: set_memory_def memory_at_def memory_ref_def h' r')
  show "memory_at (set_memory h' r' k val) r' = map_option (\<lambda>mem. mem(k \<mapsto> val)) (memory_at h r)"
    using o lt by (simp add: set_memory_def memory_at_def memory_ref_def h' r')
  show "memory_at (del_memory h' r' k) r = memory_at h r"
    using o lt by (simp add: del_memory_def memory_at_def memory_ref_def h' r')
  show "memory_at (del_memory h' r k) r' = memory_at h r"
    using o lt by (simp add: del_memory_def memory_at_def memory_ref_def h' r')
  show "steps_at (append_step h' r' s) r = steps_at h r"
    using o lt by (simp add: append_step_def steps_at_def steps_ref_def h' r')
  show "steps_at (append_step h' r s) r' = steps_at h r"
    using o lt by (simp add: append_step_def steps_at_def steps_ref_def h' r')
  show "steps_at (append_step h' r' s) r' = map_option (\<lambda>sts. sts @ [s]) (steps_at h r)"
    using o lt by (simp add: append_step_def steps_at_def steps_ref_def h' r')
qed

text \<open>
  Claim C7. In a well-formed store, the fork of a state refers to the very table and view
  objects of the state (the view being set, as the constructor leaves it), has the state's
  question, done flag, answer and depth, and has a memory dictionary and a step list of
  its own, with the contents of the state's. Nothing that existed before the fork is
  changed by it. Setting or removing a key of the memory of one of the two, or appending a
  step to one of them, changes that one and leaves the memory and the steps of the other as
  they were.
\<close>

theorem fork_shares_views_copies_memory:
  "wf_store h \<and> fork_obj h r = Some (h', r') \<longrightarrow>
     table_ref h' r' = table_ref h r \<and>
     (view_ref h r \<noteq> None \<longrightarrow> view_ref h' r' = view_ref h r) \<and>
     scalars h' r' = scalars h r \<and>
     memory_ref h' r' \<noteq> memory_ref h' r \<and>
     steps_ref h' r' \<noteq> steps_ref h' r \<and>
     memory_at h r \<noteq> None \<and> steps_at h r \<noteq> None \<and>
     memory_at h' r' = memory_at h r \<and> steps_at h' r' = steps_at h r \<and>
     memory_at h' r = memory_at h r \<and> steps_at h' r = steps_at h r \<and>
     (\<forall>x \<in> dom (objs h). objs h' x = objs h x) \<and>
     (\<forall>k v. memory_at (set_memory h' r' k v) r = memory_at h r \<and>
            memory_at (set_memory h' r k v) r' = memory_at h r \<and>
            memory_at (set_memory h' r' k v) r'
              = map_option (\<lambda>mem. mem(k \<mapsto> v)) (memory_at h r)) \<and>
     (\<forall>k. memory_at (del_memory h' r' k) r = memory_at h r \<and>
          memory_at (del_memory h' r k) r' = memory_at h r) \<and>
     (\<forall>s. steps_at (append_step h' r' s) r = steps_at h r \<and>
          steps_at (append_step h' r s) r' = steps_at h r \<and>
          steps_at (append_step h' r' s) r' = map_option (\<lambda>sts. sts @ [s]) (steps_at h r))"
proof
  assume a: "wf_store h \<and> fork_obj h r = Some (h', r')"
  then have wf: "wf_store h" and f: "fork_obj h r = Some (h', r')" by simp_all
  note facts = fork_obj_facts [OF wf f]
  show "table_ref h' r' = table_ref h r \<and>
     (view_ref h r \<noteq> None \<longrightarrow> view_ref h' r' = view_ref h r) \<and>
     scalars h' r' = scalars h r \<and>
     memory_ref h' r' \<noteq> memory_ref h' r \<and>
     steps_ref h' r' \<noteq> steps_ref h' r \<and>
     memory_at h r \<noteq> None \<and> steps_at h r \<noteq> None \<and>
     memory_at h' r' = memory_at h r \<and> steps_at h' r' = steps_at h r \<and>
     memory_at h' r = memory_at h r \<and> steps_at h' r = steps_at h r \<and>
     (\<forall>x \<in> dom (objs h). objs h' x = objs h x) \<and>
     (\<forall>k v. memory_at (set_memory h' r' k v) r = memory_at h r \<and>
            memory_at (set_memory h' r k v) r' = memory_at h r \<and>
            memory_at (set_memory h' r' k v) r'
              = map_option (\<lambda>mem. mem(k \<mapsto> v)) (memory_at h r)) \<and>
     (\<forall>k. memory_at (del_memory h' r' k) r = memory_at h r \<and>
          memory_at (del_memory h' r k) r' = memory_at h r) \<and>
     (\<forall>s. steps_at (append_step h' r' s) r = steps_at h r \<and>
          steps_at (append_step h' r s) r' = steps_at h r \<and>
          steps_at (append_step h' r' s) r' = map_option (\<lambda>sts. sts @ [s]) (steps_at h r))"
    using facts by (intro conjI allI impI) blast+
qed

theorem fork_shares_views_copies_memory_witness:
  "wf_store example_store \<and>
   (\<exists>h' r'. fork_obj example_store 5 = Some (h', r') \<and>
      table_ref h' r' = Some 0 \<and> view_ref h' r' = Some 0 \<and>
      memory_at (set_memory h' r' ''y'' (VInt 2)) 5 = Some [''x'' \<mapsto> VInt 1] \<and>
      memory_at (set_memory h' r' ''y'' (VInt 2)) r' = Some [''x'' \<mapsto> VInt 1, ''y'' \<mapsto> VInt 2] \<and>
      memory_at (set_memory h' 5 ''y'' (VInt 2)) r' = Some [''x'' \<mapsto> VInt 1])"
proof -
  have wf: "wf_store example_store"
    by (simp add: wf_store_def example_store_def)
  have "\<exists>h' r'. fork_obj example_store 5 = Some (h', r')"
    by (simp add: fork_obj_def example_store_def alloc_def new_ReasoningContext_def Let_def)
  then obtain h' r' where f: "fork_obj example_store 5 = Some (h', r')" by blast
  have m: "memory_at example_store 5 = Some [''x'' \<mapsto> VInt 1]"
    by (simp add: memory_at_def memory_ref_def example_store_def)
  have t: "table_ref example_store 5 = Some 0" "view_ref example_store 5 = Some 0"
    by (simp_all add: table_ref_def view_ref_def example_store_def)
  from fork_shares_views_copies_memory [of example_store 5 h' r'] wf f m t
  have "table_ref h' r' = Some 0 \<and> view_ref h' r' = Some 0 \<and>
      memory_at (set_memory h' r' ''y'' (VInt 2)) 5 = Some [''x'' \<mapsto> VInt 1] \<and>
      memory_at (set_memory h' r' ''y'' (VInt 2)) r' = Some [''x'' \<mapsto> VInt 1, ''y'' \<mapsto> VInt 2] \<and>
      memory_at (set_memory h' 5 ''y'' (VInt 2)) r' = Some [''x'' \<mapsto> VInt 1]"
    by simp
  with wf f show ?thesis by blast
qed

section \<open>The execution boundary\<close>

lemma error_observation_fields:
  "\<exists>kv. error_observation p e = VDict kv \<and>
        map_of kv ''ok'' = Some (VBool False) \<and>
        map_of kv ''error_type'' = Some (VStr (error_class e)) \<and>
        map_of kv ''error'' = Some (VStr (error_text e)) \<and>
        map_of kv ''penalty'' = Some (VFloat p)"
  by (simp add: error_observation_def)

lemma build_action_not_dict:
  "(\<forall>kv. spec \<noteq> VDict kv) \<longrightarrow> (\<exists>msg. build_action reg spec = Inl (ActionError msg))"
  by (cases spec) (simp_all add: build_action_def)

lemma build_action_no_type:
  "spec = VDict kv \<and> (\<forall>t. map_of kv ''type'' \<noteq> Some (VStr t)) \<longrightarrow>
     (\<exists>msg. build_action reg spec = Inl (ActionError msg))"
proof (cases "map_of kv ''type''")
  case None
  then show ?thesis by (simp add: build_action_def)
next
  case (Some v)
  then show ?thesis by (cases v) (simp_all add: build_action_def)
qed

lemma build_action_unknown:
  "spec = VDict kv \<and> map_of kv ''type'' = Some (VStr t) \<and> t \<noteq> [] \<and> reg t = None \<longrightarrow>
     (\<exists>msg. build_action reg spec = Inl (ActionError msg))"
  by (simp add: build_action_def)

lemma build_action_construct:
  "spec = VDict kv \<and> map_of kv ''type'' = Some (VStr t) \<and> t \<noteq> [] \<and> reg t = Some cls \<and>
   cls (AList.delete ''type'' kv) = Inl (TypeError m) \<longrightarrow>
     (\<exists>msg. build_action reg spec = Inl (ActionError msg))"
  by (simp add: build_action_def)

lemma build_action_validate:
  "spec = VDict kv \<and> map_of kv ''type'' = Some (VStr t) \<and> t \<noteq> [] \<and> reg t = Some cls \<and>
   cls (AList.delete ''type'' kv) = Inr act \<and> validate act = Some e \<longrightarrow>
     build_action reg spec = Inl e"
  by (simp add: build_action_def)

lemma execute_cases:
  "build_action reg spec = Inl e \<Longrightarrow> execute reg p cx spec = (cx, error_observation p e)"
  "build_action reg spec = Inr act \<Longrightarrow> apply_to act cx = Inl (cx1, e) \<Longrightarrow>
     execute reg p cx spec = (cx1, error_observation p e)"
  "build_action reg spec = Inr act \<Longrightarrow> apply_to act cx = Inr (cx2, obs) \<Longrightarrow>
     execute reg p cx spec = (cx2, if truthy obs then obs else VDict [])"
  by (simp_all add: execute_def)

text \<open>
  Claim C6, as the code has it. \<open>execute\<close> always returns a state and an observation. When
  the action cannot be built (the spec is not a dictionary, has no string type tag, names
  an unknown type, has fields the constructor refuses, or fails validation), the state
  returned is the one passed in, unchanged. When the action's application raises, the state
  returned is the one passed in as the application left it. In both cases the observation
  holds \<open>ok\<close> = false, the error's class name, its message and the penalty.
\<close>

theorem execute_failure_observation:
  "(\<exists>cx' obs. execute reg p cx spec = (cx', obs)) \<and>
   (build_action reg spec = Inl e \<longrightarrow> execute reg p cx spec = (cx, error_observation p e)) \<and>
   (build_action reg spec = Inr act \<and> apply_to act cx = Inl (cx1, e) \<longrightarrow>
      execute reg p cx spec = (cx1, error_observation p e)) \<and>
   (\<exists>kv. error_observation p e = VDict kv \<and>
        map_of kv ''ok'' = Some (VBool False) \<and>
        map_of kv ''error_type'' = Some (VStr (error_class e)) \<and>
        map_of kv ''error'' = Some (VStr (error_text e)) \<and>
        map_of kv ''penalty'' = Some (VFloat p)) \<and>
   ((\<forall>kv. spec \<noteq> VDict kv) \<longrightarrow> (\<exists>msg. build_action reg spec = Inl (ActionError msg))) \<and>
   (spec = VDict kv \<and> (\<forall>t. map_of kv ''type'' \<noteq> Some (VStr t)) \<longrightarrow>
      (\<exists>msg. build_action reg spec = Inl (ActionError msg))) \<and>
   (spec = VDict kv \<and> map_of kv ''type'' = Some (VStr t) \<and> t \<noteq> [] \<and> reg t = None \<longrightarrow>
      (\<exists>msg. build_action reg spec = Inl (ActionError msg))) \<and>
   (spec = VDict kv \<and> map_of kv ''type'' = Some (VStr t) \<and> t \<noteq> [] \<and> reg t = Some cls \<and>
    cls (AList.delete ''type'' kv) = Inl (TypeError m) \<longrightarrow>
      (\<exists>msg. build_action reg spec = Inl (ActionError msg))) \<and>
   (spec = VDict kv \<and> map_of kv ''type'' = Some (VStr t) \<and> t \<noteq> [] \<and> reg t = Some cls \<and>
    cls (AList.delete ''type'' kv) = Inr act \<and> validate act = Some e \<longrightarrow>
      build_action reg spec = Inl e)"
proof (intro conjI)
  show "\<exists>cx' obs. execute reg p cx spec = (cx', obs)"
    by (cases "execute reg p cx spec") simp
  show "build_action reg spec = Inl e \<longrightarrow> execute reg p cx spec = (cx, error_observation p e)"
    using execute_cases(1) by blast
  show "build_action reg spec = Inr act \<and> apply_to act cx = Inl (cx1, e) \<longrightarrow>
      execute reg p cx spec = (cx1, error_observation p e)"
    using execute_cases(2) by blast
  show "\<exists>kv. error_observation p e = VDict kv \<and>
        map_of kv ''ok'' = Some (VBool False) \<and>
        map_of kv ''error_type'' = Some (VStr (error_class e)) \<and>
        map_of kv ''error'' = Some (VStr (error_text e)) \<and>
        map_of kv ''penalty'' = Some (VFloat p)"
    by (rule error_observation_fields)
qed (rule build_action_not_dict build_action_no_type build_action_unknown
      build_action_construct build_action_validate)+

theorem execute_failure_observation_witness:
  "execute finish_registry (- 1000000) example_ctx unknown_spec
     = (example_ctx, error_observation (- 1000000) (ActionError ''Unknown action type: Teleport'')) \<and>
   execute finish_registry (- 1000000) example_ctx
       (VDict [(''type'', VStr ''Finish''), (''answer'', VStr ''Oslo'')])
     = (example_ctx,
        error_observation (- 1000000)
          (ActionError ''Failed to construct action Finish: __init__() got an unexpected keyword argument''))"
proof -
  have b1: "build_action finish_registry unknown_spec
              = Inl (ActionError ''Unknown action type: Teleport'')"
    by (simp add: build_action_def unknown_spec_def finish_registry_def)
  have b2: "build_action finish_registry
              (VDict [(''type'', VStr ''Finish''), (''answer'', VStr ''Oslo'')])
              = Inl (ActionError
                  ''Failed to construct action Finish: __init__() got an unexpected keyword argument'')"
    by (simp add: build_action_def finish_registry_def Finish_def)
  note t = execute_failure_observation [THEN conjunct2, THEN conjunct1, rule_format]
  have "execute finish_registry (- 1000000) example_ctx unknown_spec
     = (example_ctx, error_observation (- 1000000) (ActionError ''Unknown action type: Teleport''))"
    by (rule t [OF b1])
  moreover have "execute finish_registry (- 1000000) example_ctx
       (VDict [(''type'', VStr ''Finish''), (''answer'', VStr ''Oslo'')])
     = (example_ctx,
        error_observation (- 1000000)
          (ActionError ''Failed to construct action Finish: __init__() got an unexpected keyword argument''))"
    by (rule t [OF b2])
  ultimately show ?thesis by (rule conjI)
qed

theorem execute_state_changed_counterexample:
  "fst (execute retrieval_registry (- 1000000) provider_ctx retrieval_spec)
     = provider_ctx\<lparr> memory := (memory provider_ctx)(''general_knowledge'' \<mapsto> VDict [(''items'', VNone)]) \<rparr> \<and>
   fst (execute retrieval_registry (- 1000000) provider_ctx retrieval_spec) \<noteq> provider_ctx \<and>
   memory provider_ctx ''general_knowledge'' = None \<and>
   snd (execute retrieval_registry (- 1000000) provider_ctx retrieval_spec)
     = error_observation (- 1000000) (TypeError ''object has no len()'')"
proof -
  have s: "strip ''Oslo'' = ''Oslo''" by code_simp
  have b: "build_action retrieval_registry retrieval_spec
     = Inr \<lparr> validate = None,
             apply_to = GeneralRetrieval_apply none_items_world ''Oslo'' 3 True ''general_knowledge'' \<rparr>"
    by (simp add: build_action_def retrieval_registry_def retrieval_spec_def GeneralRetrieval_def
        kwarg_def as_str_def as_int_def as_bool_def)
  have m: "memory provider_ctx ''general_knowledge'' = None"
    "memory provider_ctx ''general_kb_provider'' = Some (VObject 0)"
    by (simp_all add: provider_ctx_def)
  have a: "GeneralRetrieval_apply none_items_world ''Oslo'' 3 True ''general_knowledge'' provider_ctx
     = Inl (provider_ctx\<lparr> memory := (memory provider_ctx)(''general_knowledge'' \<mapsto> VDict [(''items'', VNone)]) \<rparr>,
            TypeError ''object has no len()'')"
    by (simp add: GeneralRetrieval_apply_def s m retrieve_def none_items_world_def num_items_def
        py_len_def Let_def)
  have e: "execute retrieval_registry (- 1000000) provider_ctx retrieval_spec
     = (provider_ctx\<lparr> memory := (memory provider_ctx)(''general_knowledge'' \<mapsto> VDict [(''items'', VNone)]) \<rparr>,
        error_observation (- 1000000) (TypeError ''object has no len()''))"
    using b a by (simp add: execute_def)
  have ne: "provider_ctx\<lparr> memory := (memory provider_ctx)(''general_knowledge'' \<mapsto> VDict [(''items'', VNone)]) \<rparr>
              \<noteq> provider_ctx"
  proof
    assume "provider_ctx\<lparr> memory := (memory provider_ctx)(''general_knowledge'' \<mapsto> VDict [(''items'', VNone)]) \<rparr>
              = provider_ctx"
    then have "memory (provider_ctx\<lparr> memory := (memory provider_ctx)(''general_knowledge'' \<mapsto> VDict [(''items'', VNone)]) \<rparr>)
                 ''general_knowledge'' = memory provider_ctx ''general_knowledge''"
      by simp
    with m(1) show False by simp
  qed
  from e ne m(1) show ?thesis by simp
qed

end
